theory Spec2Isabelle
  imports Main
begin

section \<open>Python values, dictionaries and exceptions\<close>

text \<open>
  A Python value is either \<open>None\<close> or some other value; the type parameter stands for
  the non-\<open>None\<close> values (integers, strings, timestamps, decimals), compared with
  Python's \<open>==\<close>. A stream tuple, a disk record and an enriched tuple are dictionaries
  from field names to values.
\<close>

datatype 'v pyval = PyNone | PyVal 'v

type_synonym 'v pydict = "string \<rightharpoonup> 'v pyval"

datatype exn = KeyError | IndexError | TypeError | ValueError | DbError | OtherError

section \<open>The doubly linked list (doubly\_linked\_list.py)\<close>

text \<open>
  \<open>Node\<close> objects live in Python's object store. The store is modelled field by field:
  \<open>node_key a\<close>, \<open>node_prev a\<close> and \<open>node_next a\<close> are the attributes of the node at
  address \<open>a\<close>, and \<open>allocated\<close> counts the \<open>Node\<close> objects created so far, the next
  one getting that number as its address. \<open>dll_size\<close> is the attribute \<open>size\<close>, a
  Python integer.
\<close>

type_synonym addr = nat

record 'v dll =
  node_key :: "addr \<Rightarrow> 'v pyval"
  node_prev :: "addr \<Rightarrow> addr option"
  node_next :: "addr \<Rightarrow> addr option"
  allocated :: nat
  head :: "addr option"
  tail :: "addr option"
  dll_size :: int

definition dll_init :: "'v dll" where
  "dll_init = \<lparr>node_key = (\<lambda>_. PyNone), node_prev = (\<lambda>_. None), node_next = (\<lambda>_. None),
     allocated = 0, head = None, tail = None, dll_size = 0\<rparr>"

definition dll_append :: "'v pyval \<Rightarrow> 'v dll \<Rightarrow> addr \<times> 'v dll" where
  "dll_append k q =
     (let new_node = allocated q;
          q1 = q\<lparr>node_key := (node_key q)(new_node := k),
                 node_prev := (node_prev q)(new_node := None),
                 node_next := (node_next q)(new_node := None),
                 allocated := Suc (allocated q)\<rparr>;
          q2 = (case tail q1 of
                  None \<Rightarrow> q1\<lparr>head := Some new_node, tail := Some new_node\<rparr>
                | Some t \<Rightarrow> q1\<lparr>node_next := (node_next q1)(t := Some new_node),
                              node_prev := (node_prev q1)(new_node := Some t),
                              tail := Some new_node\<rparr>)
      in (new_node, q2\<lparr>dll_size := dll_size q2 + 1\<rparr>))"

definition dll_remove :: "addr option \<Rightarrow> 'v dll \<Rightarrow> 'v dll" where
  "dll_remove node q =
     (case node of
        None \<Rightarrow> q
      | Some n \<Rightarrow>
          (let q1 = (case node_prev q n of
                       Some p \<Rightarrow> q\<lparr>node_next := (node_next q)(p := node_next q n)\<rparr>
                     | None \<Rightarrow> q\<lparr>head := node_next q n\<rparr>);
               q2 = (case node_next q1 n of
                       Some m \<Rightarrow> q1\<lparr>node_prev := (node_prev q1)(m := node_prev q1 n)\<rparr>
                     | None \<Rightarrow> q1\<lparr>tail := node_prev q1 n\<rparr>)
           in q2\<lparr>dll_size := dll_size q2 - 1\<rparr>))"

definition peek_front :: "'v dll \<Rightarrow> 'v pyval" where
  "peek_front q = (case head q of Some h \<Rightarrow> node_key q h | None \<Rightarrow> PyNone)"

definition is_empty :: "'v dll \<Rightarrow> bool" where
  "is_empty q = (dll_size q = 0)"

definition len_dll :: "'v dll \<Rightarrow> int" where
  "len_dll q = dll_size q"

subsection \<open>The sequence of nodes a list holds\<close>

primrec path :: "(addr \<Rightarrow> addr option) \<Rightarrow> addr option \<Rightarrow> addr list \<Rightarrow> addr option \<Rightarrow> bool" where
  "path nx p [] r = (p = r)"
| "path nx p (a # as) r = (p = Some a \<and> path nx (nx a) as r)"

text \<open>
  \<open>dll_rep q xs\<close>: following \<open>next\<close> from \<open>head\<close> visits exactly \<open>xs\<close> and then \<open>None\<close>,
  following \<open>prev\<close> from \<open>tail\<close> visits \<open>xs\<close> backwards, \<open>size\<close> is the length of \<open>xs\<close>,
  and every node of \<open>xs\<close> was created by \<open>append\<close>, in increasing order of creation.
\<close>

definition dll_rep :: "'v dll \<Rightarrow> addr list \<Rightarrow> bool" where
  "dll_rep q xs \<longleftrightarrow>
     path (node_next q) (head q) xs None \<and>
     path (node_prev q) (tail q) (rev xs) None \<and>
     dll_size q = int (length xs) \<and>
     sorted_wrt (<) xs \<and> (\<forall>a \<in> set xs. a < allocated q)"

text \<open>The nodes reached from \<open>head\<close> in \<open>size\<close> steps of \<open>next\<close>.\<close>

fun chain :: "(addr \<Rightarrow> addr option) \<Rightarrow> addr option \<Rightarrow> nat \<Rightarrow> addr list" where
  "chain nx None n = []"
| "chain nx (Some a) 0 = []"
| "chain nx (Some a) (Suc n) = a # chain nx (nx a) n"

definition nodes_of :: "'v dll \<Rightarrow> addr list" where
  "nodes_of q = chain (node_next q) (head q) (nat (dll_size q))"

subsection \<open>Facts about paths\<close>

lemma path_append:
  "path nx p (as @ bs) r \<longleftrightarrow> (\<exists>m. path nx p as m \<and> path nx m bs r)"
  by (induction as arbitrary: p) auto

lemma path_upd_other:
  "u \<notin> set as \<Longrightarrow> path (nx(u := v)) p as r = path nx p as r"
  by (induction as arbitrary: p) auto

lemma path_snoc:
  "path nx p (as @ [a]) r \<longleftrightarrow> path nx p as (Some a) \<and> nx a = r"
  by (auto simp: path_append)

lemma path_unique:
  "path nx p as None \<Longrightarrow> path nx p bs None \<Longrightarrow> as = bs"
proof (induction as arbitrary: p bs)
  case Nil
  then show ?case by (cases bs) auto
next
  case (Cons a as)
  then show ?case by (cases bs) auto
qed

lemma path_chain:
  "path nx p as None \<Longrightarrow> chain nx p (length as) = as"
  by (induction as arbitrary: p) auto

lemma dll_rep_nodes_of: "dll_rep q xs \<Longrightarrow> nodes_of q = xs"
  by (simp add: dll_rep_def nodes_of_def path_chain)

lemma dll_rep_distinct: "dll_rep q xs \<Longrightarrow> distinct xs"
  by (simp add: dll_rep_def strict_sorted_iff)

subsection \<open>\<open>append\<close> and \<open>remove\<close> on the represented sequence\<close>

lemma dll_append_rep:
  assumes "dll_rep q xs" and "dll_append k q = (a, q')"
  shows "a = allocated q" and "dll_rep q' (xs @ [a])" and "node_key q' = (node_key q)(a := k)"
    and "allocated q' = Suc (allocated q)"
proof -
  let ?a = "allocated q"
  from assms(1) have fresh: "?a \<notin> set xs" by (auto simp: dll_rep_def)
  show a: "a = allocated q" using assms(2) by (auto simp: dll_append_def Let_def split: option.splits)
  show "node_key q' = (node_key q)(a := k)" "allocated q' = Suc (allocated q)"
    using assms(2) by (auto simp: dll_append_def Let_def split: option.splits)
  show "dll_rep q' (xs @ [a])"
  proof (cases xs rule: rev_cases)
    case Nil
    with assms show ?thesis
      by (auto simp: dll_rep_def dll_append_def Let_def split: option.splits)
  next
    case (snoc ys y)
    with assms(1) have t: "tail q = Some y" and ny: "node_next q y = None"
      and py: "path (node_prev q) (node_prev q y) (rev ys) None"
      and pn: "path (node_next q) (head q) ys (Some y)"
      by (auto simp: dll_rep_def path_snoc)
    from fresh snoc have ne: "y \<noteq> ?a" "?a \<notin> set ys" by auto
    from assms(1) snoc have "sorted_wrt (<) (ys @ [y])" "\<forall>b\<in>set (ys @ [y]). b < ?a"
      by (auto simp: dll_rep_def)
    then have srt: "sorted_wrt (<) (xs @ [?a])" using snoc by (auto simp: sorted_wrt_append)
    from assms(1) have "distinct xs" by (rule dll_rep_distinct)
    with snoc have yn: "y \<notin> set ys" by auto
    have q': "q' = q\<lparr>node_key := (node_key q)(?a := k),
                 node_prev := ((node_prev q)(?a := None))(?a := Some y),
                 node_next := ((node_next q)(?a := None))(y := Some ?a),
                 allocated := Suc ?a, tail := Some ?a, dll_size := dll_size q + 1\<rparr>"
      using assms(2) t by (auto simp: dll_append_def Let_def)
    have "path (node_next q') (head q') (ys @ [y] @ [?a]) None"
      using pn ne yn by (simp add: q' path_append path_upd_other)
    moreover have "path (node_prev q') (tail q') (rev (ys @ [y] @ [?a])) None"
      using py ne yn t assms(1) snoc by (simp add: q' path_upd_other dll_rep_def)
    moreover have "dll_size q' = int (length (xs @ [?a]))"
      using assms(1) by (simp add: q' dll_rep_def)
    moreover have "\<forall>b \<in> set (xs @ [?a]). b < allocated q'"
      using assms(1) by (auto simp: q' dll_rep_def)
    ultimately show ?thesis using srt snoc a by (simp add: dll_rep_def)
  qed
qed


lemma dll_remove_rep:
  assumes "dll_rep q xs" and "a \<in> set xs"
  shows "dll_rep (dll_remove (Some a) q) (remove1 a xs)"
    and "node_key (dll_remove (Some a) q) = node_key q"
    and "allocated (dll_remove (Some a) q) = allocated q"
proof -
  show "node_key (dll_remove (Some a) q) = node_key q"
    "allocated (dll_remove (Some a) q) = allocated q"
    by (auto simp: dll_remove_def Let_def split: option.splits)
  from assms(2) obtain ys zs where xs: "xs = ys @ a # zs"
    by (auto simp: in_set_conv_decomp)
  from assms(1) have dist: "distinct xs" by (rule dll_rep_distinct)
  with xs have a_ys: "a \<notin> set ys" and a_zs: "a \<notin> set zs" and disj: "set ys \<inter> set zs = {}"
    by auto
  from dist xs have rm: "remove1 a xs = ys @ zs"
    by (simp add: remove1_append)
  from assms(1) xs have nx: "path (node_next q) (head q) ys (Some a)"
    and nz: "path (node_next q) (node_next q a) zs None"
    and pz: "path (node_prev q) (tail q) (rev zs) (Some a)"
    and py: "path (node_prev q) (node_prev q a) (rev ys) None"
    by (auto simp: dll_rep_def path_append)
  have prev_a: "node_prev q a = (if ys = [] then None else Some (last ys))"
    using py by (cases ys rule: rev_cases) auto
  have next_a: "node_next q a = (if zs = [] then None else Some (hd zs))"
    using nz by (cases zs) auto
  let ?q' = "dll_remove (Some a) q"
  have n': "path (node_next ?q') (head ?q') (ys @ zs) None"
  proof (cases ys rule: rev_cases)
    case Nil
    then show ?thesis using nz prev_a
      by (cases zs) (auto simp: dll_remove_def Let_def)
  next
    case (snoc ys' y)
    with dist xs have y: "y \<notin> set ys'" "y \<notin> set zs" "y \<noteq> a" by auto
    from nx snoc have "path (node_next q) (head q) ys' (Some y)" by (simp add: path_snoc)
    then show ?thesis using nz prev_a snoc y
      by (cases zs) (auto simp: dll_remove_def Let_def path_append path_upd_other)
  qed
  have p': "path (node_prev ?q') (tail ?q') (rev (ys @ zs)) None"
  proof (cases zs)
    case Nil
    then show ?thesis using py next_a prev_a
      by (cases ys rule: rev_cases) (auto simp: dll_remove_def Let_def)
  next
    case (Cons z zs')
    with dist xs have z: "z \<notin> set zs'" "z \<notin> set ys" "z \<noteq> a" by auto
    from pz Cons have "path (node_prev q) (tail q) (rev zs') (Some z)" by (simp add: path_snoc)
    then show ?thesis using py next_a prev_a Cons z
      by (cases ys rule: rev_cases) (auto simp: dll_remove_def Let_def path_append path_upd_other)
  qed
  have "dll_size ?q' = int (length (ys @ zs))"
    using assms(1) xs by (auto simp: dll_remove_def Let_def dll_rep_def split: option.splits)
  moreover have "sorted_wrt (<) (ys @ zs)" "\<forall>b \<in> set (ys @ zs). b < allocated ?q'"
    using assms(1) xs by (auto simp: dll_remove_def Let_def dll_rep_def sorted_wrt_append split: option.splits)
  ultimately show "dll_rep ?q' (remove1 a xs)"
    using n' p' rm by (simp add: dll_rep_def)
qed


section \<open>The join stage (hybridjoin.py, class HybridJoinConsumer)\<close>

definition HS :: int where "HS = 10000"
definition VP :: int where "VP = 500"
definition BATCH_INSERT_SIZE :: int where "BATCH_INSERT_SIZE = 1000"

text \<open>
  The tuple appended to \<open>final_load_batch\<close>; the fields are the thirteen components of
  \<open>fact_record\<close> in their order.
\<close>

record 'v fact_record =
  f_order_id :: "'v pyval"
  f_order_line_number :: int
  f_customer_key :: int
  f_product_key :: int
  f_store_key :: int
  f_supplier_key :: int
  f_date_key :: int
  f_quantity :: "'v pyval"
  f_unit_price :: "'v"
  f_total_purchase :: "'v"
  f_discount_amount :: int
  f_weekend_flag :: int
  f_order_channel :: string

text \<open>
  The result of \<open>load_dimension_lookups\<close>: natural key to surrogate key, one dictionary
  per dimension.
\<close>

record lookups =
  customer :: "int \<rightharpoonup> int"
  product :: "string \<rightharpoonup> int"
  store :: "string \<rightharpoonup> int"
  supplier :: "string \<rightharpoonup> int"

text \<open>
  What the stage calls but does not define: Python's conversions, the pandas date
  functions, and \<open>insert_fact_sales_batch\<close>, which returns the number of rows stored or
  raises.
\<close>

record 'v ext =
  py_int :: "'v pyval \<Rightarrow> exn + int"
  py_str :: "'v pyval \<Rightarrow> string"
  py_float :: "'v pyval \<Rightarrow> exn + 'v"
  py_mul :: "'v pyval \<Rightarrow> 'v \<Rightarrow> exn + 'v"
  to_datetime :: "'v pyval \<Rightarrow> exn + 'v"
  strftime_int :: "'v \<Rightarrow> exn + int"
  weekday :: "'v \<Rightarrow> exn + int"
  insert_fact_sales_batch :: "'v fact_record list \<Rightarrow> exn + int"

type_synonym 'v entry = "'v pydict \<times> addr"

text \<open>
  The attributes of a \<open>HybridJoinConsumer\<close>. \<open>input_queue\<close> holds the items waiting in
  the input \<open>queue.Queue\<close>, oldest first; \<open>output_queue\<close> holds the items put on the
  output queue so far, in the order of the \<open>put\<close> calls.
\<close>

record 'v consumer =
  input_queue :: "'v pydict list"
  output_queue :: "'v pydict list"
  join_key_field :: string
  is_final_stage :: bool
  dim_lookups :: "lookups option"
  final_load_batch :: "'v fact_record list"
  hash_table :: "'v pyval \<rightharpoonup> 'v entry list"
  queue :: "'v dll"
  disk_buffer :: "'v pydict list"
  w :: int
  total_processed :: int
  total_joined :: int
  total_output :: int
  total_loaded :: int
  dropped_records :: int
  drop_log_samples :: int
  disk_io_count :: int

definition init_consumer :: "string \<Rightarrow> bool \<Rightarrow> lookups option \<Rightarrow> 'v consumer" where
  "init_consumer jk final lk =
     \<lparr>input_queue = [], output_queue = [], join_key_field = jk, is_final_stage = final,
      dim_lookups = lk, final_load_batch = [], hash_table = Map.empty, queue = dll_init,
      disk_buffer = [], w = HS, total_processed = 0, total_joined = 0, total_output = 0,
      total_loaded = 0, dropped_records = 0, drop_log_samples = 0, disk_io_count = 0\<rparr>"

text \<open>
  What the other threads and the database do during one pass of the loop of \<open>run\<close>:
  the items the upstream thread puts on the input queue before the admission loop looks
  at it (\<open>arrive_pre\<close>) and between the admission loop and the test of line 188
  (\<open>arrive_mid\<close>), the value \<open>upstream_finished_event.is_set()\<close> returns there, and what
  \<open>partition_loader_func\<close> does when called with a key and a partition size.
\<close>

record 'v env =
  arrive_pre :: "'v pydict list"
  arrive_mid :: "'v pydict list"
  upstream_finished :: bool
  partition_loader_func :: "'v pyval \<Rightarrow> int \<Rightarrow> exn + 'v pydict list"

text \<open>\<open>self.hash_table[k]\<close> of a \<open>defaultdict(list)\<close>: the empty list for a missing key.\<close>

definition bucket :: "('v pyval \<rightharpoonup> 'v entry list) \<Rightarrow> 'v pyval \<Rightarrow> 'v entry list" where
  "bucket h k = (case h k of None \<Rightarrow> [] | Some es \<Rightarrow> es)"

subsection \<open>Sink adapter: \<open>_write_fact_to_batch\<close>\<close>

definition truthy :: "int option \<Rightarrow> bool" where
  "truthy k = (case k of None \<Rightarrow> False | Some v \<Rightarrow> v \<noteq> 0)"

definition get_item :: "'v pydict \<Rightarrow> string \<Rightarrow> exn + 'v pyval" where
  "get_item d f = (case d f of None \<Rightarrow> Inl KeyError | Some v \<Rightarrow> Inr v)"

definition bind :: "exn + 'a \<Rightarrow> ('a \<Rightarrow> exn + 'b) \<Rightarrow> exn + 'b" where
  "bind m f = (case m of Inl e \<Rightarrow> Inl e | Inr x \<Rightarrow> f x)"

text \<open>
  The body of the \<open>try\<close> up to the construction of \<open>fact_record\<close>: \<open>Inl\<close> for an
  exception, \<open>Inr None\<close> for the early \<open>return\<close> of line 327, \<open>Inr (Some r)\<close> for the
  record to append.
\<close>

definition build_fact :: "'v ext \<Rightarrow> lookups option \<Rightarrow> 'v pydict \<Rightarrow> exn + 'v fact_record option" where
  "build_fact X lko t =
     bind (get_item t ''Customer_ID'') (\<lambda>cid.
     bind (py_int X cid) (\<lambda>customer_id.
     bind (case lko of None \<Rightarrow> Inl TypeError | Some lk \<Rightarrow> Inr lk) (\<lambda>lk.
     let customer_key = customer lk customer_id in
     bind (get_item t ''Product_ID'') (\<lambda>pid.
     let product_id = py_str X pid;
         product_key = product lk product_id;
         store_id = (case t ''StoreID'' of None \<Rightarrow> ''UNKNOWN'' | Some v \<Rightarrow> py_str X v);
         store_key = store lk store_id;
         supplier_id = (case t ''SupplierID'' of None \<Rightarrow> ''UNKNOWN'' | Some v \<Rightarrow> py_str X v);
         supplier_key = supplier lk supplier_id in
     bind (get_item t ''date'') (\<lambda>d.
     bind (to_datetime X d) (\<lambda>date_obj.
     bind (strftime_int X date_obj) (\<lambda>date_key.
     if \<not> (truthy customer_key \<and> truthy product_key \<and> truthy store_key \<and>
             truthy supplier_key \<and> date_key \<noteq> 0)
     then Inr None
     else
     bind (get_item t ''Price'') (\<lambda>price.
     bind (py_float X price) (\<lambda>unit_price.
     bind (get_item t ''quantity'') (\<lambda>quantity.
     bind (py_mul X quantity unit_price) (\<lambda>total_purchase.
     bind (weekday X date_obj) (\<lambda>wd.
     bind (get_item t ''Order_ID'') (\<lambda>order_id.
     Inr (Some \<lparr>f_order_id = order_id, f_order_line_number = 1,
                 f_customer_key = the customer_key, f_product_key = the product_key,
                 f_store_key = the store_key, f_supplier_key = the supplier_key,
                 f_date_key = date_key, f_quantity = quantity, f_unit_price = unit_price,
                 f_total_purchase = total_purchase, f_discount_amount = 0,
                 f_weekend_flag = (if wd \<ge> 5 then 1 else 0),
                 f_order_channel = ''In-Store''\<rparr>))))))))))))))"

definition drop_with_log :: "'v consumer \<Rightarrow> 'v consumer" where
  "drop_with_log s =
     (let s1 = s\<lparr>dropped_records := dropped_records s + 1\<rparr>
      in if drop_log_samples s1 < 3 then s1\<lparr>drop_log_samples := drop_log_samples s1 + 1\<rparr> else s1)"

definition write_fact_to_batch :: "'v ext \<Rightarrow> 'v pydict \<Rightarrow> 'v consumer \<Rightarrow> 'v consumer" where
  "write_fact_to_batch X enriched_tuple s =
     (case build_fact X (dim_lookups s) enriched_tuple of
        Inl e \<Rightarrow> drop_with_log s
      | Inr None \<Rightarrow> s\<lparr>dropped_records := dropped_records s + 1\<rparr>
      | Inr (Some fact_rec) \<Rightarrow>
          (let s1 = s\<lparr>final_load_batch := final_load_batch s @ [fact_rec]\<rparr>
           in if int (length (final_load_batch s1)) \<ge> BATCH_INSERT_SIZE
              then (case insert_fact_sales_batch X (final_load_batch s1) of
                      Inl e \<Rightarrow> drop_with_log s1
                    | Inr inserted \<Rightarrow>
                        s1\<lparr>total_loaded := total_loaded s1 + inserted, final_load_batch := []\<rparr>)
              else s1))"


subsection \<open>The loop of \<open>run\<close>\<close>

text \<open>Lines 175 to 180: one pass of the admission loop, after \<open>get\<close> returned an item.\<close>

definition admit_one :: "'v pydict \<Rightarrow> 'v pyval \<Rightarrow> 'v consumer \<Rightarrow> 'v consumer" where
  "admit_one stream_tuple join_key s =
     (let (queue_node, q') = dll_append join_key (queue s)
      in s\<lparr>queue := q',
            hash_table := (hash_table s)(join_key \<mapsto>
               bucket (hash_table s) join_key @ [(stream_tuple, queue_node)]),
            total_processed := total_processed s + 1\<rparr>)"

text \<open>
  Lines 173 to 182. The result is \<open>tuples_loaded_this_iteration\<close> and the state, or
  the \<open>KeyError\<close> of a stream tuple without the join key field, which no handler of
  \<open>run\<close> catches.
\<close>

function admit_loop :: "int \<Rightarrow> 'v consumer \<Rightarrow> exn + (int \<times> 'v consumer)" where
  "admit_loop tuples_loaded s =
     (if tuples_loaded < w s \<and> input_queue s \<noteq> [] then
        (case input_queue s of
           [] \<Rightarrow> Inr (tuples_loaded, s)
         | stream_tuple # rest \<Rightarrow>
             (case stream_tuple (join_key_field s) of
                None \<Rightarrow> Inl KeyError
              | Some join_key \<Rightarrow>
                  admit_loop (tuples_loaded + 1)
                    (admit_one stream_tuple join_key (s\<lparr>input_queue := rest\<rparr>))))
      else Inr (tuples_loaded, s))"
  by pat_completeness auto
termination
  by (relation "measure (\<lambda>(n, s). length (input_queue s))")
     (auto simp: admit_one_def Let_def split: prod.splits)

text \<open>Lines 170 to 185.\<close>

definition admit_phase :: "'v env \<Rightarrow> 'v consumer \<Rightarrow> exn + 'v consumer" where
  "admit_phase e s =
     (let s0 = s\<lparr>input_queue := input_queue s @ arrive_pre e\<rparr>
      in if w s0 > 0 then
           (case admit_loop 0 s0 of
              Inl x \<Rightarrow> Inl x
            | Inr (tuples_loaded, s1) \<Rightarrow>
                Inr (if tuples_loaded > 0 then s1\<lparr>w := 0\<rparr> else s1))
         else Inr s0)"

text \<open>Lines 213 to 215 and 222 to 224: the removal of one window entry.\<close>

definition remove_entry :: "'v pyval \<Rightarrow> 'v entry \<Rightarrow> 'v consumer \<Rightarrow> 'v consumer" where
  "remove_entry k e s =
     s\<lparr>hash_table := (hash_table s)(k \<mapsto> remove1 e (bucket (hash_table s) k)),
       queue := dll_remove (Some (snd e)) (queue s),
       w := w s + 1\<rparr>"

text \<open>Lines 210 to 215 and 219 to 224: the flush of the bucket of the oldest key.\<close>

definition flush_bucket :: "'v pyval \<Rightarrow> 'v consumer \<Rightarrow> 'v consumer" where
  "flush_bucket oldest_key s =
     (case hash_table s oldest_key of
        None \<Rightarrow> s
      | Some matching_tuples \<Rightarrow> fold (remove_entry oldest_key) matching_tuples s)"

text \<open>Lines 234 to 247: the body of the loop over \<open>matching_tuples\<close>.\<close>

definition match_entry :: "'v ext \<Rightarrow> 'v pydict \<Rightarrow> 'v pyval \<Rightarrow> 'v entry \<Rightarrow> 'v consumer \<Rightarrow> 'v consumer" where
  "match_entry X disk_record k e s =
     (let s1 = remove_entry k e s;
          enriched_tuple = fst e ++ disk_record;
          s2 = s1\<lparr>total_joined := total_joined s1 + 1\<rparr>
      in if is_final_stage s2 then write_fact_to_batch X enriched_tuple s2
         else s2\<lparr>output_queue := output_queue s2 @ [enriched_tuple],
                 total_output := total_output s2 + 1\<rparr>)"

text \<open>Lines 230 to 250: one disk record whose join key value is \<open>k\<close>.\<close>

definition match_record :: "'v ext \<Rightarrow> 'v pydict \<Rightarrow> 'v pyval \<Rightarrow> 'v consumer \<Rightarrow> 'v consumer" where
  "match_record X disk_record k s =
     (case hash_table s k of
        None \<Rightarrow> s
      | Some matching_tuples \<Rightarrow>
          (let s1 = fold (match_entry X disk_record k) matching_tuples s
           in if bucket (hash_table s1) k = [] then s1\<lparr>hash_table := (hash_table s1)(k := None)\<rparr>
              else s1))"

text \<open>
  Lines 227 to 250: the loop over \<open>disk_buffer\<close>. A disk record without the join key
  field raises \<open>KeyError\<close> at line 228, outside every \<open>try\<close>.
\<close>

fun match_loop :: "'v ext \<Rightarrow> 'v pydict list \<Rightarrow> 'v consumer \<Rightarrow> exn + 'v consumer" where
  "match_loop X [] s = Inr s"
| "match_loop X (disk_record # rest) s =
     (case disk_record (join_key_field s) of
        None \<Rightarrow> Inl KeyError
      | Some join_key_value \<Rightarrow> match_loop X rest (match_record X disk_record join_key_value s))"

datatype control = Break | Continue

text \<open>Lines 187 to 250: the pass from the emptiness test on, after the admission.\<close>

definition probe_phase :: "'v ext \<Rightarrow> 'v env \<Rightarrow> 'v consumer \<Rightarrow> exn + (control \<times> 'v consumer)" where
  "probe_phase X e s0 =
     (let s = s0\<lparr>input_queue := input_queue s0 @ arrive_mid e\<rparr>
      in if is_empty (queue s) then
           (if upstream_finished e \<and> input_queue s = [] then Inr (Break, s)
            else Inr (Continue, s))
         else
           (let oldest_key = peek_front (queue s)
            in if oldest_key = PyNone then Inr (Continue, s\<lparr>w := HS - len_dll (queue s)\<rparr>)
               else
                 (case partition_loader_func e oldest_key VP of
                    Inl x \<Rightarrow> Inr (Continue, flush_bucket oldest_key s)
                  | Inr fetched \<Rightarrow>
                      (let s1 = s\<lparr>disk_buffer := fetched, disk_io_count := disk_io_count s + 1\<rparr>
                       in if fetched = [] then Inr (Continue, flush_bucket oldest_key s1)
                          else (case match_loop X fetched s1 of
                                  Inl x \<Rightarrow> Inl x
                                | Inr s2 \<Rightarrow> Inr (Continue, s2))))))"

text \<open>One pass of the \<open>while True\<close> loop, lines 168 to 250.\<close>

definition iteration :: "'v ext \<Rightarrow> 'v env \<Rightarrow> 'v consumer \<Rightarrow> exn + (control \<times> 'v consumer)" where
  "iteration X e s =
     (case admit_phase e s of
        Inl x \<Rightarrow> Inl x
      | Inr s1 \<Rightarrow> probe_phase X e s1)"

text \<open>
  The loop itself. Each pass meets one environment; the list of environments bounds the
  number of passes, and \<open>None\<close> says that the loop is still running when the list is
  used up. \<open>Some (Inl x)\<close> is the exception that ends the thread, \<open>Some (Inr s)\<close> the
  state at the \<open>break\<close> of line 190.
\<close>

fun run_loop :: "'v ext \<Rightarrow> 'v env list \<Rightarrow> 'v consumer \<Rightarrow> (exn + 'v consumer) option" where
  "run_loop X [] s = None"
| "run_loop X (e # es) s =
     (case iteration X e s of
        Inl x \<Rightarrow> Some (Inl x)
      | Inr (Break, s') \<Rightarrow> Some (Inr s')
      | Inr (Continue, s') \<Rightarrow> run_loop X es s')"

text \<open>The states the loop can be in at the top of a pass.\<close>

inductive reach :: "'v ext \<Rightarrow> 'v consumer \<Rightarrow> bool" for X :: "'v ext" where
  reach_init: "reach X (init_consumer jk final lk)"
| reach_step: "reach X s \<Longrightarrow> iteration X e s = Inr (c, s') \<Longrightarrow> reach X s'"


section \<open>Example values\<close>

text \<open>
  A concrete world for the examples: values are strings, \<open>int\<close> accepts ''1'' and
  ''2'', every date is a Monday with date key 20240101, and the database stores
  every batch.
\<close>

definition ex_ext :: "string ext" where
  "ex_ext =
     \<lparr>py_int = (\<lambda>v. if v = PyVal ''1'' then Inr 1 else if v = PyVal ''2'' then Inr 2
                     else if v = PyNone then Inl TypeError else Inl ValueError),
      py_str = (\<lambda>v. case v of PyNone \<Rightarrow> ''None'' | PyVal x \<Rightarrow> x),
      py_float = (\<lambda>v. case v of PyNone \<Rightarrow> Inl TypeError | PyVal x \<Rightarrow> Inr x),
      py_mul = (\<lambda>q p. case q of PyNone \<Rightarrow> Inl TypeError | PyVal x \<Rightarrow> Inr (x @ ''*'' @ p)),
      to_datetime = (\<lambda>v. case v of PyNone \<Rightarrow> Inl ValueError | PyVal x \<Rightarrow> Inr x),
      strftime_int = (\<lambda>d. Inr 20240101),
      weekday = (\<lambda>d. Inr 0),
      insert_fact_sales_batch = (\<lambda>b. Inr (int (length b)))\<rparr>"

definition ex_lookups :: lookups where
  "ex_lookups =
     \<lparr>customer = [1 \<mapsto> 11], product = [''P1'' \<mapsto> 21], store = [''S1'' \<mapsto> 31],
      supplier = [''U1'' \<mapsto> 41]\<rparr>"

definition ex_enriched :: "string \<Rightarrow> string pydict" where
  "ex_enriched store_id =
     [''Order_ID'' \<mapsto> PyVal ''900'', ''Customer_ID'' \<mapsto> PyVal ''1'',
      ''Product_ID'' \<mapsto> PyVal ''P1'', ''quantity'' \<mapsto> PyVal ''3'',
      ''date'' \<mapsto> PyVal ''2024-01-01'', ''Price'' \<mapsto> PyVal ''9.5'',
      ''StoreID'' \<mapsto> PyVal store_id, ''SupplierID'' \<mapsto> PyVal ''U1'']"

section \<open>The sink adapter drops a tuple whose dimension lookup misses\<close>

text \<open>
  The natural keys \<open>_write_fact_to_batch\<close> looks up for the store and the supplier, and
  the condition that one of the four lookups it performs finds nothing.
\<close>

definition store_id_of :: "'v ext \<Rightarrow> 'v pydict \<Rightarrow> string" where
  "store_id_of X t = (case t ''StoreID'' of None \<Rightarrow> ''UNKNOWN'' | Some v \<Rightarrow> py_str X v)"

definition supplier_id_of :: "'v ext \<Rightarrow> 'v pydict \<Rightarrow> string" where
  "supplier_id_of X t = (case t ''SupplierID'' of None \<Rightarrow> ''UNKNOWN'' | Some v \<Rightarrow> py_str X v)"

definition lookup_absent :: "'v ext \<Rightarrow> lookups \<Rightarrow> 'v pydict \<Rightarrow> bool" where
  "lookup_absent X lk t \<longleftrightarrow>
     (\<exists>cid i. t ''Customer_ID'' = Some cid \<and> py_int X cid = Inr i \<and> customer lk i = None) \<or>
     (\<exists>pid. t ''Product_ID'' = Some pid \<and> product lk (py_str X pid) = None) \<or>
     store lk (store_id_of X t) = None \<or>
     supplier lk (supplier_id_of X t) = None"

lemma build_fact_Some:
  assumes "build_fact X lko t = Inr (Some r)"
  shows "\<exists>lk cid i pid. lko = Some lk \<and> t ''Customer_ID'' = Some cid \<and> py_int X cid = Inr i \<and>
           t ''Product_ID'' = Some pid \<and> truthy (customer lk i) \<and>
           truthy (product lk (py_str X pid)) \<and> truthy (store lk (store_id_of X t)) \<and>
           truthy (supplier lk (supplier_id_of X t))"
  using assms
  by (auto simp: build_fact_def bind_def get_item_def Let_def store_id_of_def supplier_id_of_def
      split: sum.splits option.splits if_splits)

lemma build_fact_absent:
  "lookup_absent X lk t \<Longrightarrow> build_fact X (Some lk) t \<noteq> Inr (Some r)"
  by (auto dest!: build_fact_Some simp: lookup_absent_def truthy_def)

text \<open>
  Claim C9. When the final stage hands \<open>_write_fact_to_batch\<close> an enriched tuple for
  which the customer, product, store or supplier lookup finds no surrogate key, the
  call returns normally with \<open>dropped_records\<close> one higher and with the batch buffer
  and the count of loaded records as they were.
\<close>

theorem lookup_miss_drops:
  assumes "dim_lookups s = Some lk" and "lookup_absent X lk t"
  shows "dropped_records (write_fact_to_batch X t s) = dropped_records s + 1 \<and>
         final_load_batch (write_fact_to_batch X t s) = final_load_batch s \<and>
         total_loaded (write_fact_to_batch X t s) = total_loaded s"
proof (cases "build_fact X (dim_lookups s) t")
  case (Inl e)
  then show ?thesis by (simp add: write_fact_to_batch_def drop_with_log_def Let_def)
next
  case (Inr ro)
  with assms build_fact_absent[OF assms(2)] have "ro = None" by (cases ro) auto
  with Inr show ?thesis by (simp add: write_fact_to_batch_def)
qed

theorem lookup_miss_drops_witness:
  "dim_lookups (init_consumer ''Product_ID'' True (Some ex_lookups) :: string consumer) = Some ex_lookups \<and>
   lookup_absent ex_ext ex_lookups (ex_enriched ''S9'') \<and>
   dropped_records (write_fact_to_batch ex_ext (ex_enriched ''S9'')
      (init_consumer ''Product_ID'' True (Some ex_lookups))) = 1 \<and>
   final_load_batch (write_fact_to_batch ex_ext (ex_enriched ''S9'')
      (init_consumer ''Product_ID'' True (Some ex_lookups))) = []"
proof -
  have a: "dim_lookups (init_consumer ''Product_ID'' True (Some ex_lookups) :: string consumer) = Some ex_lookups"
    by (simp add: init_consumer_def)
  have b: "lookup_absent ex_ext ex_lookups (ex_enriched ''S9'')"
    by (simp add: lookup_absent_def store_id_of_def ex_ext_def ex_lookups_def ex_enriched_def)
  show ?thesis
    using a b lookup_miss_drops [OF a b] by (simp add: init_consumer_def)
qed

section \<open>The window: hash table and queue hold the same entries\<close>

text \<open>
  \<open>struct s xs\<close>: the queue holds the nodes \<open>xs\<close>, oldest first, and for every key the
  nodes of its bucket are the nodes of the queue that carry that key, in the same order.
\<close>

definition struct :: "'v consumer \<Rightarrow> addr list \<Rightarrow> bool" where
  "struct s xs \<longleftrightarrow>
     dll_rep (queue s) xs \<and>
     (\<forall>k. map snd (bucket (hash_table s) k) = filter (\<lambda>a. node_key (queue s) a = k) xs)"

lemma struct_cong:
  "hash_table s = hash_table s' \<Longrightarrow> queue s = queue s' \<Longrightarrow> struct s xs = struct s' xs"
  by (simp add: struct_def)

lemma bucket_upd_same [simp]: "bucket (h(k \<mapsto> es)) k = es"
  by (simp add: bucket_def)

lemma bucket_upd_other [simp]: "k' \<noteq> k \<Longrightarrow> bucket (h(k \<mapsto> es)) k' = bucket h k'"
  by (simp add: bucket_def)

lemma remove_entry_fields [simp]:
  "input_queue (remove_entry k e s) = input_queue s"
  "output_queue (remove_entry k e s) = output_queue s"
  "join_key_field (remove_entry k e s) = join_key_field s"
  "is_final_stage (remove_entry k e s) = is_final_stage s"
  "dim_lookups (remove_entry k e s) = dim_lookups s"
  "final_load_batch (remove_entry k e s) = final_load_batch s"
  "total_processed (remove_entry k e s) = total_processed s"
  "total_joined (remove_entry k e s) = total_joined s"
  "total_output (remove_entry k e s) = total_output s"
  "total_loaded (remove_entry k e s) = total_loaded s"
  "dropped_records (remove_entry k e s) = dropped_records s"
  "disk_io_count (remove_entry k e s) = disk_io_count s"
  "disk_buffer (remove_entry k e s) = disk_buffer s"
  "w (remove_entry k e s) = w s + 1"
  "queue (remove_entry k e s) = dll_remove (Some (snd e)) (queue s)"
  "hash_table (remove_entry k e s) = (hash_table s)(k \<mapsto> remove1 e (bucket (hash_table s) k))"
  by (simp_all add: remove_entry_def)

lemma dll_remove_fields [simp]:
  "node_key (dll_remove n q) = node_key q"
  "allocated (dll_remove n q) = allocated q"
  "dll_size (dll_remove (Some a) q) = dll_size q - 1"
  by (auto simp: dll_remove_def Let_def split: option.splits)

lemma struct_remove_entry:
  assumes "struct s xs" and "bucket (hash_table s) k = e # es"
  shows "struct (remove_entry k e s) (remove1 (snd e) xs)"
    and "bucket (hash_table (remove_entry k e s)) k = es"
    and "snd e \<in> set xs" and "node_key (queue s) (snd e) = k"
proof -
  let ?a = "snd e"
  let ?P = "\<lambda>k a. node_key (queue s) a = k"
  from assms have rep: "dll_rep (queue s) xs"
    and idx: "\<And>k. map snd (bucket (hash_table s) k) = filter (?P k) xs"
    by (auto simp: struct_def)
  from idx[of k] assms(2) have f: "filter (?P k) xs = ?a # map snd es" by simp
  then have "?a \<in> set (filter (?P k) xs)" by simp
  then show a: "?a \<in> set xs" and ka: "node_key (queue s) ?a = k" by auto
  show b: "bucket (hash_table (remove_entry k e s)) k = es"
    using assms(2) by simp
  have dist: "distinct xs" using rep by (rule dll_rep_distinct)
  have "dll_rep (queue (remove_entry k e s)) (remove1 ?a xs)"
    using dll_remove_rep(1)[OF rep a] by simp
  moreover have "map snd (bucket (hash_table (remove_entry k e s)) k') =
      filter (\<lambda>a. node_key (queue (remove_entry k e s)) a = k') (remove1 ?a xs)" for k'
  proof (cases "k' = k")
    case True
    have "filter (?P k) (remove1 ?a xs) = remove1 ?a (filter (?P k) xs)"
      by (simp add: filter_remove1)
    also have "\<dots> = map snd es" using f by simp
    finally show ?thesis using True b by simp
  next
    case False
    have "?a \<notin> set (filter (?P k') xs)" using ka False by auto
    then have "filter (?P k') (remove1 ?a xs) = filter (?P k') xs"
      by (simp add: filter_remove1 remove1_idem)
    then show ?thesis using False idx[of k'] by simp
  qed
  ultimately show "struct (remove_entry k e s) (remove1 (snd e) xs)"
    by (simp add: struct_def)
qed


lemma fold_removal:
  assumes h: "\<And>e s. hash_table (f e s) = hash_table (remove_entry k e s)"
      and q: "\<And>e s. queue (f e s) = queue (remove_entry k e s)"
      and "struct s xs" and "bucket (hash_table s) k = es @ rest"
  shows "struct (fold f es s) (filter (\<lambda>a. a \<notin> snd ` set es) xs) \<and>
         bucket (hash_table (fold f es s)) k = rest \<and>
         (\<forall>k'. k' \<noteq> k \<longrightarrow> hash_table (fold f es s) k' = hash_table s k') \<and>
         node_key (queue (fold f es s)) = node_key (queue s) \<and>
         allocated (queue (fold f es s)) = allocated (queue s) \<and>
         dll_size (queue (fold f es s)) = dll_size (queue s) - int (length es)"
  using assms(3,4)
proof (induction es arbitrary: s xs)
  case Nil
  then show ?case by simp
next
  case (Cons e es)
  let ?s1 = "remove_entry k e s"
  let ?t = "f e s"
  from Cons.prems(2) have b: "bucket (hash_table s) k = e # (es @ rest)" by simp
  note r = struct_remove_entry[OF Cons.prems(1) b]
  have st: "struct ?t (remove1 (snd e) xs)"
    using r(1) struct_cong[of ?t ?s1] h q by simp
  have bt: "bucket (hash_table ?t) k = es @ rest" using r(2) h by simp
  have nk: "node_key (queue ?t) = node_key (queue s)" by (simp add: q)
  have "distinct xs" using Cons.prems(1) by (auto simp: struct_def dest: dll_rep_distinct)
  then have "remove1 (snd e) xs = filter (\<lambda>a. a \<noteq> snd e) xs"
    by (simp add: distinct_remove1_removeAll removeAll_filter_not_eq) (metis)
  then have "filter (\<lambda>a. a \<notin> snd ` set es) (remove1 (snd e) xs) =
        filter (\<lambda>a. a \<notin> snd ` set (e # es)) xs"
    by (auto intro: filter_cong)
  with Cons.IH[OF st bt] show ?case
    by (simp add: nk q h)
qed

lemma fold_removal_all:
  assumes h: "\<And>e s. hash_table (f e s) = hash_table (remove_entry k e s)"
      and q: "\<And>e s. queue (f e s) = queue (remove_entry k e s)"
      and "struct s xs" and "bucket (hash_table s) k = es"
  shows "struct (fold f es s) (filter (\<lambda>a. node_key (queue s) a \<noteq> k) xs) \<and>
         bucket (hash_table (fold f es s)) k = [] \<and>
         (\<forall>k'. k' \<noteq> k \<longrightarrow> hash_table (fold f es s) k' = hash_table s k') \<and>
         node_key (queue (fold f es s)) = node_key (queue s) \<and>
         allocated (queue (fold f es s)) = allocated (queue s) \<and>
         dll_size (queue (fold f es s)) = dll_size (queue s) - int (length es)"
proof -
  from assms(3,4) have "snd ` set es = set (filter (\<lambda>a. node_key (queue s) a = k) xs)"
    by (metis struct_def set_map)
  then have "filter (\<lambda>a. a \<notin> snd ` set es) xs = filter (\<lambda>a. node_key (queue s) a \<noteq> k) xs"
    by (auto intro: filter_cong)
  with fold_removal[of f k s xs es "[]", OF h q assms(3)] assms(4) show ?thesis by simp
qed

lemma fold_w:
  assumes "\<And>e s. w (f e s) = w s + 1"
  shows "w (fold f es s) = w s + int (length es)"
  by (induction es arbitrary: s) (simp_all add: assms)


lemma write_fact_fields [simp]:
  "input_queue (write_fact_to_batch X t s) = input_queue s"
  "output_queue (write_fact_to_batch X t s) = output_queue s"
  "join_key_field (write_fact_to_batch X t s) = join_key_field s"
  "is_final_stage (write_fact_to_batch X t s) = is_final_stage s"
  "dim_lookups (write_fact_to_batch X t s) = dim_lookups s"
  "hash_table (write_fact_to_batch X t s) = hash_table s"
  "queue (write_fact_to_batch X t s) = queue s"
  "w (write_fact_to_batch X t s) = w s"
  "total_processed (write_fact_to_batch X t s) = total_processed s"
  "total_joined (write_fact_to_batch X t s) = total_joined s"
  "total_output (write_fact_to_batch X t s) = total_output s"
  "disk_io_count (write_fact_to_batch X t s) = disk_io_count s"
  "disk_buffer (write_fact_to_batch X t s) = disk_buffer s"
  by (simp_all add: write_fact_to_batch_def drop_with_log_def Let_def split: sum.splits option.splits)

lemma match_entry_fields [simp]:
  "input_queue (match_entry X r k e s) = input_queue s"
  "join_key_field (match_entry X r k e s) = join_key_field s"
  "is_final_stage (match_entry X r k e s) = is_final_stage s"
  "dim_lookups (match_entry X r k e s) = dim_lookups s"
  "hash_table (match_entry X r k e s) = hash_table (remove_entry k e s)"
  "queue (match_entry X r k e s) = queue (remove_entry k e s)"
  "w (match_entry X r k e s) = w s + 1"
  "total_processed (match_entry X r k e s) = total_processed s"
  "total_joined (match_entry X r k e s) = total_joined s + 1"
  "disk_io_count (match_entry X r k e s) = disk_io_count s"
  "disk_buffer (match_entry X r k e s) = disk_buffer s"
  by (simp_all add: match_entry_def Let_def)

lemma match_entry_output:
  "\<not> is_final_stage s \<Longrightarrow>
     output_queue (match_entry X r k e s) = output_queue s @ [fst e ++ r] \<and>
     total_output (match_entry X r k e s) = total_output s + 1 \<and>
     final_load_batch (match_entry X r k e s) = final_load_batch s \<and>
     total_loaded (match_entry X r k e s) = total_loaded s \<and>
     dropped_records (match_entry X r k e s) = dropped_records s"
  by (simp add: match_entry_def Let_def)

lemma fold_const_field:
  assumes "\<And>e s. g (f e s) = g s"
  shows "g (fold f es s) = g s"
  by (induction es arbitrary: s) (simp_all add: assms)

lemma dll_append_fields:
  "fst (dll_append k q) = allocated q"
  "allocated (snd (dll_append k q)) = Suc (allocated q)"
  "dll_size (snd (dll_append k q)) = dll_size q + 1"
  "node_key (snd (dll_append k q)) = (node_key q)(allocated q := k)"
  by (auto simp: dll_append_def Let_def split: option.splits)

lemma admit_one_fields [simp]:
  "input_queue (admit_one t k s) = input_queue s"
  "output_queue (admit_one t k s) = output_queue s"
  "join_key_field (admit_one t k s) = join_key_field s"
  "is_final_stage (admit_one t k s) = is_final_stage s"
  "dim_lookups (admit_one t k s) = dim_lookups s"
  "final_load_batch (admit_one t k s) = final_load_batch s"
  "w (admit_one t k s) = w s"
  "total_processed (admit_one t k s) = total_processed s + 1"
  "total_joined (admit_one t k s) = total_joined s"
  "total_output (admit_one t k s) = total_output s"
  "total_loaded (admit_one t k s) = total_loaded s"
  "dropped_records (admit_one t k s) = dropped_records s"
  "disk_io_count (admit_one t k s) = disk_io_count s"
  "disk_buffer (admit_one t k s) = disk_buffer s"
  "queue (admit_one t k s) = snd (dll_append k (queue s))"
  "hash_table (admit_one t k s) =
     (hash_table s)(k \<mapsto> bucket (hash_table s) k @ [(t, allocated (queue s))])"
  by (simp_all add: admit_one_def Let_def split: prod.splits)
     (auto simp: dll_append_def Let_def split: option.splits)

lemma struct_admit_one:
  assumes "struct s xs"
  shows "struct (admit_one t k s) (xs @ [allocated (queue s)])"
proof -
  let ?a = "allocated (queue s)"
  from assms have rep: "dll_rep (queue s) xs"
    and idx: "\<And>k. map snd (bucket (hash_table s) k) = filter (\<lambda>a. node_key (queue s) a = k) xs"
    by (auto simp: struct_def)
  obtain a q' where ap: "dll_append k (queue s) = (a, q')" by (cases "dll_append k (queue s)")
  note r = dll_append_rep[OF rep ap]
  from rep have fresh: "?a \<notin> set xs" by (auto simp: dll_rep_def)
  have q: "queue (admit_one t k s) = q'" using ap by simp
  have "map snd (bucket (hash_table (admit_one t k s)) k') =
        filter (\<lambda>b. node_key q' b = k') (xs @ [?a])" for k'
  proof -
    have "filter (\<lambda>b. node_key q' b = k') xs = filter (\<lambda>b. node_key (queue s) b = k') xs"
      using fresh r(1,3) by (intro filter_cong) auto
    then show ?thesis using idx[of k'] r(1,3) by (cases "k' = k") auto
  qed
  then show ?thesis using r(1,2) q by (simp add: struct_def)
qed

subsection \<open>The admission loop\<close>

declare admit_loop.simps [simp del]

lemma struct_input_queue [simp]: "struct (s\<lparr>input_queue := i\<rparr>) xs = struct s xs"
  by (simp add: struct_def)

text \<open>
  What the admission loop has done when it returns \<open>(m, s')\<close> from \<open>(n, s)\<close>: it has
  taken the tuples \<open>ts\<close> from the front of the input queue and appended one entry for
  each, in that order.
\<close>

definition admitted ::
  "int \<Rightarrow> 'v consumer \<Rightarrow> addr list \<Rightarrow> int \<Rightarrow> 'v consumer \<Rightarrow> 'v pydict list \<Rightarrow> bool" where
  "admitted n s xs m s' ts \<longleftrightarrow>
     input_queue s = ts @ input_queue s' \<and> m = n + int (length ts) \<and>
     struct s' (xs @ [allocated (queue s) ..< allocated (queue s) + length ts]) \<and>
     (n \<le> w s \<longrightarrow> m \<le> w s) \<and>
     (\<forall>t \<in> set ts. t (join_key_field s) \<noteq> None) \<and>
     (\<forall>k. map fst (bucket (hash_table s') k) =
          map fst (bucket (hash_table s) k) @ filter (\<lambda>t. t (join_key_field s) = Some k) ts) \<and>
     allocated (queue s') = allocated (queue s) + length ts \<and>
     dll_size (queue s') = dll_size (queue s) + int (length ts) \<and>
     total_processed s' = total_processed s + int (length ts)"

lemma admit_loop_char:
  assumes "admit_loop n s = Inr (m, s')" and "struct s xs"
  shows "\<exists>ts. admitted n s xs m s' ts"
  using assms
proof (induction n s arbitrary: xs rule: admit_loop.induct)
  case (1 n s)
  show ?case
  proof (cases "n < w s \<and> input_queue s \<noteq> []")
    case False
    with "1.prems"(1) have "m = n" "s' = s" by (auto simp: admit_loop.simps[of n s])
    then have "admitted n s xs m s' []" using "1.prems"(2) by (simp add: admitted_def)
    then show ?thesis ..
  next
    case True
    then obtain t rest where iq: "input_queue s = t # rest" by (cases "input_queue s") auto
    with True "1.prems"(1) obtain k where k: "t (join_key_field s) = Some k"
      by (cases "t (join_key_field s)") (auto simp: admit_loop.simps[of n s])
    let ?s1 = "admit_one t k (s\<lparr>input_queue := rest\<rparr>)"
    from True iq k "1.prems"(1) have rec: "admit_loop (n + 1) ?s1 = Inr (m, s')"
      by (simp add: admit_loop.simps[of n s])
    have st1: "struct ?s1 (xs @ [allocated (queue s)])"
      using struct_admit_one[of "s\<lparr>input_queue := rest\<rparr>" xs t k] "1.prems"(2) by simp
    from "1.IH"[OF True iq k rec st1] obtain ts where
      ts: "admitted (n + 1) ?s1 (xs @ [allocated (queue s)]) m s' ts" ..
    have al: "allocated (queue ?s1) = Suc (allocated (queue s))"
      by (simp add: dll_append_fields)
    have upt: "[allocated (queue s)] @ [Suc (allocated (queue s)) ..< Suc (allocated (queue s)) + length ts]
        = [allocated (queue s) ..< allocated (queue s) + length (t # ts)]"
      by (simp add: upt_rec)
    have bk: "map fst (bucket (hash_table ?s1) k') =
        map fst (bucket (hash_table s) k') @ (if k' = k then [t] else [])" for k'
      by (cases "k' = k") simp_all
    have "admitted n s xs m s' (t # ts)"
      unfolding admitted_def
    proof (intro conjI)
      show "input_queue s = (t # ts) @ input_queue s'" using iq ts by (simp add: admitted_def)
      show "m = n + int (length (t # ts))" using ts by (simp add: admitted_def)
      have "struct s' ((xs @ [allocated (queue s)]) @
          [Suc (allocated (queue s)) ..< Suc (allocated (queue s)) + length ts])"
        using ts al by (simp add: admitted_def)
      then show "struct s' (xs @ [allocated (queue s) ..< allocated (queue s) + length (t # ts)])"
        using upt by (metis append_assoc)
      show "n \<le> w s \<longrightarrow> m \<le> w s" using ts True by (simp add: admitted_def)
      show "\<forall>t \<in> set (t # ts). t (join_key_field s) \<noteq> None" using ts k by (simp add: admitted_def)
      have "map fst (bucket (hash_table s') k') =
          map fst (bucket (hash_table ?s1) k') @ filter (\<lambda>t. t (join_key_field s) = Some k') ts" for k'
        using ts by (simp add: admitted_def)
      then show "\<forall>k'. map fst (bucket (hash_table s') k') =
          map fst (bucket (hash_table s) k') @ filter (\<lambda>t. t (join_key_field s) = Some k') (t # ts)"
        using bk k by auto
      show "allocated (queue s') = allocated (queue s) + length (t # ts)"
        using ts al by (simp add: admitted_def)
      show "dll_size (queue s') = dll_size (queue s) + int (length (t # ts))"
        using ts by (simp add: admitted_def dll_append_fields)
      show "total_processed s' = total_processed s + int (length (t # ts))"
        using ts by (simp add: admitted_def)
    qed
    then show ?thesis ..
  qed
qed


text \<open>The attributes the admission loop leaves alone.\<close>

definition admit_frame :: "'v consumer \<Rightarrow> 'v consumer \<Rightarrow> bool" where
  "admit_frame s s' \<longleftrightarrow>
     w s' = w s \<and> output_queue s' = output_queue s \<and> join_key_field s' = join_key_field s \<and>
     is_final_stage s' = is_final_stage s \<and> dim_lookups s' = dim_lookups s \<and>
     final_load_batch s' = final_load_batch s \<and> total_joined s' = total_joined s \<and>
     total_output s' = total_output s \<and> total_loaded s' = total_loaded s \<and>
     dropped_records s' = dropped_records s \<and> disk_io_count s' = disk_io_count s \<and>
     disk_buffer s' = disk_buffer s \<and>
     (\<forall>a < allocated (queue s). node_key (queue s') a = node_key (queue s) a)"

lemma admit_loop_frame:
  "admit_loop n s = Inr (m, s') \<Longrightarrow> admit_frame s s'"
proof (induction n s rule: admit_loop.induct)
  case (1 n s)
  show ?case
  proof (cases "n < w s \<and> input_queue s \<noteq> []")
    case False
    with "1.prems" show ?thesis by (auto simp: admit_loop.simps[of n s] admit_frame_def)
  next
    case True
    then obtain t rest where iq: "input_queue s = t # rest" by (cases "input_queue s") auto
    with True "1.prems"(1) obtain k where k: "t (join_key_field s) = Some k"
      by (cases "t (join_key_field s)") (auto simp: admit_loop.simps[of n s])
    let ?s1 = "admit_one t k (s\<lparr>input_queue := rest\<rparr>)"
    from True iq k "1.prems"(1) have rec: "admit_loop (n + 1) ?s1 = Inr (m, s')"
      by (simp add: admit_loop.simps[of n s])
    from "1.IH"[OF True iq k rec] show ?thesis
      by (simp add: admit_frame_def dll_append_fields)
  qed
qed

subsection \<open>Matching one disk record\<close>

lemma fold_bucket:
  assumes h: "\<And>e s. hash_table (f e s) = hash_table (remove_entry k e s)"
      and "bucket (hash_table s) k = es @ rest"
  shows "bucket (hash_table (fold f es s)) k = rest \<and>
         (\<forall>k'. k' \<noteq> k \<longrightarrow> hash_table (fold f es s) k' = hash_table s k')"
  using assms(2)
proof (induction es arbitrary: s)
  case Nil
  then show ?case by simp
next
  case (Cons e es)
  have "bucket (hash_table (f e s)) k = es @ rest" using Cons.prems by (simp add: h)
  from Cons.IH[OF this] show ?case by (simp add: h)
qed

lemma fold_match_entry_counts:
  "w (fold (match_entry X r k) es s) = w s + int (length es) \<and>
   total_joined (fold (match_entry X r k) es s) = total_joined s + int (length es) \<and>
   dll_size (queue (fold (match_entry X r k) es s)) = dll_size (queue s) - int (length es) \<and>
   allocated (queue (fold (match_entry X r k) es s)) = allocated (queue s) \<and>
   node_key (queue (fold (match_entry X r k) es s)) = node_key (queue s) \<and>
   join_key_field (fold (match_entry X r k) es s) = join_key_field s \<and>
   is_final_stage (fold (match_entry X r k) es s) = is_final_stage s \<and>
   input_queue (fold (match_entry X r k) es s) = input_queue s \<and>
   total_processed (fold (match_entry X r k) es s) = total_processed s \<and>
   disk_io_count (fold (match_entry X r k) es s) = disk_io_count s"
  by (induction es arbitrary: s) simp_all

lemma fold_match_entry_output:
  "\<not> is_final_stage s \<Longrightarrow>
   output_queue (fold (match_entry X r k) es s) = output_queue s @ map (\<lambda>e. fst e ++ r) es \<and>
   total_output (fold (match_entry X r k) es s) = total_output s + int (length es) \<and>
   final_load_batch (fold (match_entry X r k) es s) = final_load_batch s \<and>
   total_loaded (fold (match_entry X r k) es s) = total_loaded s \<and>
   dropped_records (fold (match_entry X r k) es s) = dropped_records s"
  by (induction es arbitrary: s) (simp_all add: match_entry_output)

lemma match_record_hash_table:
  "hash_table (match_record X r k s) = (hash_table s)(k := None)"
proof (cases "hash_table s k")
  case None
  then show ?thesis by (auto simp: match_record_def)
next
  case (Some es)
  then have b: "bucket (hash_table s) k = es @ []" by (simp add: bucket_def)
  let ?s1 = "fold (match_entry X r k) es s"
  from fold_bucket[of "match_entry X r k" k s es "[]", OF _ b]
  have "bucket (hash_table ?s1) k = []" "\<And>k'. k' \<noteq> k \<Longrightarrow> hash_table ?s1 k' = hash_table s k'"
    by simp_all
  then show ?thesis using Some by (auto simp: match_record_def Let_def)
qed

lemma match_record_counts:
  "w (match_record X r k s) = w s + int (length (bucket (hash_table s) k)) \<and>
   total_joined (match_record X r k s) = total_joined s + int (length (bucket (hash_table s) k)) \<and>
   dll_size (queue (match_record X r k s)) =
     dll_size (queue s) - int (length (bucket (hash_table s) k)) \<and>
   allocated (queue (match_record X r k s)) = allocated (queue s) \<and>
   node_key (queue (match_record X r k s)) = node_key (queue s) \<and>
   join_key_field (match_record X r k s) = join_key_field s \<and>
   is_final_stage (match_record X r k s) = is_final_stage s \<and>
   input_queue (match_record X r k s) = input_queue s \<and>
   total_processed (match_record X r k s) = total_processed s \<and>
   disk_io_count (match_record X r k s) = disk_io_count s"
  by (cases "hash_table s k")
     (simp_all add: match_record_def Let_def bucket_def fold_match_entry_counts)

lemma match_record_output:
  "\<not> is_final_stage s \<Longrightarrow>
   output_queue (match_record X r k s) =
     output_queue s @ map (\<lambda>e. fst e ++ r) (bucket (hash_table s) k) \<and>
   total_output (match_record X r k s) = total_output s + int (length (bucket (hash_table s) k)) \<and>
   final_load_batch (match_record X r k s) = final_load_batch s \<and>
   total_loaded (match_record X r k s) = total_loaded s \<and>
   dropped_records (match_record X r k s) = dropped_records s"
  by (cases "hash_table s k")
     (simp_all add: match_record_def Let_def bucket_def fold_match_entry_output)

lemma bucket_delete:
  "bucket h k = [] \<Longrightarrow> bucket (h(k := None)) k' = bucket h k'"
  by (cases "k' = k") (simp_all add: bucket_def)

lemma struct_delete_empty:
  "struct s xs \<Longrightarrow> bucket (hash_table s) k = [] \<Longrightarrow>
   struct (s\<lparr>hash_table := (hash_table s)(k := None)\<rparr>) xs"
  by (simp add: struct_def bucket_delete)

lemma struct_match_record:
  assumes "struct s xs"
  shows "struct (match_record X r k s) (filter (\<lambda>a. node_key (queue s) a \<noteq> k) xs)"
proof (cases "hash_table s k")
  case None
  then have "bucket (hash_table s) k = []" by (simp add: bucket_def)
  with assms have "filter (\<lambda>a. node_key (queue s) a = k) xs = []"
    by (metis struct_def list.map_disc_iff)
  then have "filter (\<lambda>a. node_key (queue s) a \<noteq> k) xs = xs"
    by (auto simp: filter_empty_conv filter_id_conv)
  with None assms show ?thesis by (simp add: match_record_def)
next
  case (Some es)
  then have b: "bucket (hash_table s) k = es" by (simp add: bucket_def)
  let ?s1 = "fold (match_entry X r k) es s"
  from fold_removal_all[of "match_entry X r k" k s xs es, OF _ _ assms b]
  have "struct ?s1 (filter (\<lambda>a. node_key (queue s) a \<noteq> k) xs)" "bucket (hash_table ?s1) k = []"
    by simp_all
  then show ?thesis using Some struct_delete_empty[of ?s1 _ k]
    by (simp add: match_record_def Let_def)
qed

subsection \<open>The match loop and the flush\<close>

lemma match_loop_counts:
  assumes "match_loop X rows s = Inr s'"
  shows "w s' + dll_size (queue s') = w s + dll_size (queue s) \<and>
         w s \<le> w s' \<and>
         total_joined s' - total_joined s = w s' - w s \<and>
         allocated (queue s') = allocated (queue s) \<and>
         node_key (queue s') = node_key (queue s) \<and>
         join_key_field s' = join_key_field s \<and>
         is_final_stage s' = is_final_stage s \<and>
         input_queue s' = input_queue s \<and>
         total_processed s' = total_processed s \<and>
         disk_io_count s' = disk_io_count s"
  using assms
proof (induction rows arbitrary: s)
  case Nil
  then show ?case by simp
next
  case (Cons r rows)
  then obtain k where k: "r (join_key_field s) = Some k"
    by (cases "r (join_key_field s)") auto
  with Cons.prems have "match_loop X rows (match_record X r k s) = Inr s'" by simp
  from Cons.IH[OF this] show ?case
    using match_record_counts[of X r k s] by simp
qed

lemma match_loop_hash_table:
  assumes "match_loop X rows s = Inr s'"
  shows "hash_table s' =
     (\<lambda>k. if Some k \<in> (\<lambda>r. r (join_key_field s)) ` set rows then None else hash_table s k)"
  using assms
proof (induction rows arbitrary: s)
  case Nil
  then show ?case by simp
next
  case (Cons r rows)
  then obtain k where k: "r (join_key_field s) = Some k"
    by (cases "r (join_key_field s)") auto
  with Cons.prems have "match_loop X rows (match_record X r k s) = Inr s'" by simp
  from Cons.IH[OF this] show ?case
    using match_record_counts[of X r k s] k
    by (auto simp: match_record_hash_table fun_eq_iff)
qed

lemma struct_match_loop:
  assumes "match_loop X rows s = Inr s'" and "struct s xs"
  shows "struct s'
     (filter (\<lambda>a. Some (node_key (queue s) a) \<notin> (\<lambda>r. r (join_key_field s)) ` set rows) xs)"
  using assms
proof (induction rows arbitrary: s xs)
  case Nil
  then show ?case by simp
next
  case (Cons r rows)
  then obtain k where k: "r (join_key_field s) = Some k"
    by (cases "r (join_key_field s)") auto
  with Cons.prems have m: "match_loop X rows (match_record X r k s) = Inr s'" by simp
  note st = struct_match_record[OF Cons.prems(2), of X r k]
  have "filter (\<lambda>a. Some (node_key (queue s) a) \<notin> (\<lambda>r. r (join_key_field s)) ` set rows)
          (filter (\<lambda>a. node_key (queue s) a \<noteq> k) xs) =
        filter (\<lambda>a. Some (node_key (queue s) a) \<notin> (\<lambda>r. r (join_key_field s)) ` set (r # rows)) xs"
    using k by (auto intro!: filter_cong)
  with Cons.IH[OF m st] show ?case
    using match_record_counts[of X r k s] by simp
qed

lemma flush_bucket_counts:
  "w (flush_bucket k s) = w s + int (length (bucket (hash_table s) k)) \<and>
   dll_size (queue (flush_bucket k s)) = dll_size (queue s) - int (length (bucket (hash_table s) k)) \<and>
   allocated (queue (flush_bucket k s)) = allocated (queue s) \<and>
   node_key (queue (flush_bucket k s)) = node_key (queue s)"
proof -
  have "w (fold (remove_entry k) es s) = w s + int (length es) \<and>
     dll_size (queue (fold (remove_entry k) es s)) = dll_size (queue s) - int (length es) \<and>
     allocated (queue (fold (remove_entry k) es s)) = allocated (queue s) \<and>
     node_key (queue (fold (remove_entry k) es s)) = node_key (queue s)" for es
    by (induction es arbitrary: s) simp_all
  then show ?thesis
    by (cases "hash_table s k") (simp_all add: flush_bucket_def bucket_def)
qed

lemma flush_bucket_frame:
  "input_queue (flush_bucket k s) = input_queue s \<and>
   output_queue (flush_bucket k s) = output_queue s \<and>
   join_key_field (flush_bucket k s) = join_key_field s \<and>
   is_final_stage (flush_bucket k s) = is_final_stage s \<and>
   dim_lookups (flush_bucket k s) = dim_lookups s \<and>
   final_load_batch (flush_bucket k s) = final_load_batch s \<and>
   total_processed (flush_bucket k s) = total_processed s \<and>
   total_joined (flush_bucket k s) = total_joined s \<and>
   total_output (flush_bucket k s) = total_output s \<and>
   total_loaded (flush_bucket k s) = total_loaded s \<and>
   dropped_records (flush_bucket k s) = dropped_records s \<and>
   disk_io_count (flush_bucket k s) = disk_io_count s \<and>
   disk_buffer (flush_bucket k s) = disk_buffer s"
proof -
  have "input_queue (fold (remove_entry k) es s) = input_queue s \<and>
   output_queue (fold (remove_entry k) es s) = output_queue s \<and>
   join_key_field (fold (remove_entry k) es s) = join_key_field s \<and>
   is_final_stage (fold (remove_entry k) es s) = is_final_stage s \<and>
   dim_lookups (fold (remove_entry k) es s) = dim_lookups s \<and>
   final_load_batch (fold (remove_entry k) es s) = final_load_batch s \<and>
   total_processed (fold (remove_entry k) es s) = total_processed s \<and>
   total_joined (fold (remove_entry k) es s) = total_joined s \<and>
   total_output (fold (remove_entry k) es s) = total_output s \<and>
   total_loaded (fold (remove_entry k) es s) = total_loaded s \<and>
   dropped_records (fold (remove_entry k) es s) = dropped_records s \<and>
   disk_io_count (fold (remove_entry k) es s) = disk_io_count s \<and>
   disk_buffer (fold (remove_entry k) es s) = disk_buffer s" for es
    by (induction es arbitrary: s) simp_all
  then show ?thesis
    by (cases "hash_table s k") (simp_all add: flush_bucket_def)
qed

lemma struct_flush_bucket:
  assumes "struct s xs"
  shows "struct (flush_bucket k s) (filter (\<lambda>a. node_key (queue s) a \<noteq> k) xs) \<and>
         bucket (hash_table (flush_bucket k s)) k = [] \<and>
         (\<forall>k'. k' \<noteq> k \<longrightarrow> hash_table (flush_bucket k s) k' = hash_table s k')"
proof (cases "hash_table s k")
  case None
  then have "bucket (hash_table s) k = []" by (simp add: bucket_def)
  with assms have "filter (\<lambda>a. node_key (queue s) a = k) xs = []"
    by (metis struct_def list.map_disc_iff)
  then have "filter (\<lambda>a. node_key (queue s) a \<noteq> k) xs = xs"
    by (auto simp: filter_empty_conv filter_id_conv)
  with None assms show ?thesis by (simp add: flush_bucket_def bucket_def)
next
  case (Some es)
  then have b: "bucket (hash_table s) k = es" by (simp add: bucket_def)
  from fold_removal_all[of "remove_entry k" k s xs es, OF _ _ assms b] Some
  show ?thesis by (simp add: flush_bucket_def)
qed

text \<open>
  What lines 170 to 185 have done when they end in state \<open>s1\<close>: the tuples \<open>ts\<close> were
  taken from the front of the input queue and admitted, and \<open>w\<close> was set to 0 if there
  was at least one.
\<close>

definition admitted_phase ::
  "'v env \<Rightarrow> 'v consumer \<Rightarrow> addr list \<Rightarrow> 'v consumer \<Rightarrow> 'v pydict list \<Rightarrow> bool" where
  "admitted_phase e s xs s1 ts \<longleftrightarrow>
     input_queue s @ arrive_pre e = ts @ input_queue s1 \<and>
     struct s1 (xs @ [allocated (queue s) ..< allocated (queue s) + length ts]) \<and>
     int (length ts) \<le> w s \<and>
     w s1 = (if ts = [] then w s else 0) \<and>
     (\<forall>t \<in> set ts. t (join_key_field s) \<noteq> None) \<and>
     (\<forall>k. map fst (bucket (hash_table s1) k) =
          map fst (bucket (hash_table s) k) @ filter (\<lambda>t. t (join_key_field s) = Some k) ts) \<and>
     allocated (queue s1) = allocated (queue s) + length ts \<and>
     dll_size (queue s1) = dll_size (queue s) + int (length ts) \<and>
     total_processed s1 = total_processed s + int (length ts) \<and>
     admit_frame (s\<lparr>w := w s1\<rparr>) s1"

lemma admit_phase_char:
  assumes "admit_phase e s = Inr s1" and "struct s xs" and "0 \<le> w s"
  shows "\<exists>ts. admitted_phase e s xs s1 ts"
proof (cases "w s > 0")
  case False
  with assms(1) have s1: "s1 = s\<lparr>input_queue := input_queue s @ arrive_pre e\<rparr>"
    by (auto simp: admit_phase_def Let_def)
  from False assms(2,3) have "admitted_phase e s xs s1 []" unfolding s1
    by (simp add: admit_frame_def admitted_phase_def)
  then show ?thesis ..
next
  case True
  let ?s0 = "s\<lparr>input_queue := input_queue s @ arrive_pre e\<rparr>"
  from True assms(1) obtain m s1' where al: "admit_loop 0 ?s0 = Inr (m, s1')"
    and s1: "s1 = (if m > 0 then s1'\<lparr>w := 0\<rparr> else s1')"
    by (auto simp: admit_phase_def Let_def split: sum.splits)
  from admit_loop_char[OF al] assms(2) obtain ts where ts: "admitted 0 ?s0 xs m s1' ts"
    by auto
  note fr = admit_loop_frame[OF al]
  have m: "m = int (length ts)" using ts by (simp add: admitted_def)
  have "struct s1 (xs @ [allocated (queue s) ..< allocated (queue s) + length ts])"
    using ts s1 by (auto simp: admitted_def struct_def)
  moreover have "int (length ts) \<le> w s" using ts assms(3) m by (simp add: admitted_def)
  moreover have "w s1 = (if ts = [] then w s else 0)"
    using s1 m fr by (auto simp: admit_frame_def)
  moreover have "admit_frame (s\<lparr>w := w s1\<rparr>) s1"
    using s1 fr by (auto simp: admit_frame_def)
  ultimately have "admitted_phase e s xs s1 ts" using ts s1
    by (auto simp: admitted_def admitted_phase_def)
  then show ?thesis ..
qed

section \<open>The invariant of the loop\<close>

text \<open>
  The invariant of the loop of \<open>run\<close>, at the top of every pass: hash table and queue
  agree, \<open>w\<close> is not negative, and \<open>w\<close> plus the length of the queue is at most \<open>HS\<close>.
\<close>

definition stage_inv :: "'v consumer \<Rightarrow> bool" where
  "stage_inv s \<longleftrightarrow> (\<exists>xs. struct s xs) \<and> 0 \<le> w s \<and> w s + dll_size (queue s) \<le> HS"

lemma struct_size: "struct s xs \<Longrightarrow> dll_size (queue s) = int (length xs)"
  by (simp add: struct_def dll_rep_def)

lemma struct_nodes_of: "struct s xs \<Longrightarrow> nodes_of (queue s) = xs"
  by (simp add: struct_def dll_rep_nodes_of)

lemma stage_inv_init: "stage_inv (init_consumer jk final lk)"
proof -
  have "struct (init_consumer jk final lk) []"
    by (simp add: struct_def init_consumer_def dll_init_def dll_rep_def bucket_def)
  then show ?thesis
    by (auto simp: stage_inv_def init_consumer_def dll_init_def HS_def)
qed

lemma admit_phase_inv:
  assumes "admit_phase e s = Inr s1" and "stage_inv s"
  shows "stage_inv s1"
proof -
  from assms(2) obtain xs where xs: "struct s xs" and w: "0 \<le> w s"
    and b: "w s + dll_size (queue s) \<le> HS"
    by (auto simp: stage_inv_def)
  from admit_phase_char[OF assms(1) xs w] obtain ts where "admitted_phase e s xs s1 ts" ..
  with w b show ?thesis by (auto simp: stage_inv_def admitted_phase_def)
qed

lemma stage_inv_input_queue [simp]: "stage_inv (s\<lparr>input_queue := i\<rparr>) = stage_inv s"
  by (simp add: stage_inv_def)

lemma stage_inv_disk [simp]:
  "stage_inv (s\<lparr>disk_buffer := d, disk_io_count := n\<rparr>) = stage_inv s"
  by (simp add: stage_inv_def struct_def)

lemma flush_bucket_inv: "stage_inv s \<Longrightarrow> stage_inv (flush_bucket k s)"
  using flush_bucket_counts[of k s] struct_flush_bucket[of s _ k]
  by (auto simp: stage_inv_def)

lemma match_loop_inv: "match_loop X rows s = Inr s' \<Longrightarrow> stage_inv s \<Longrightarrow> stage_inv s'"
  using match_loop_counts[of X rows s s'] struct_match_loop[of X rows s s']
  by (auto simp: stage_inv_def)

lemma probe_phase_inv:
  assumes "probe_phase X e s1 = Inr (c, s')" and "stage_inv s1"
  shows "stage_inv s'"
proof -
  let ?s = "s1\<lparr>input_queue := input_queue s1 @ arrive_mid e\<rparr>"
  have i: "stage_inv ?s" using assms(2) by simp
  show ?thesis
  proof (cases "is_empty (queue ?s)")
    case True
    with assms(1) have "s' = ?s" by (auto simp: probe_phase_def Let_def split: if_splits)
    with i show ?thesis by simp
  next
    case ne: False
    show ?thesis
    proof (cases "peek_front (queue ?s) = PyNone")
      case True
      with ne assms(1) have "s' = ?s\<lparr>w := HS - len_dll (queue ?s)\<rparr>"
        by (auto simp: probe_phase_def Let_def)
      with assms(2) show ?thesis by (auto simp: stage_inv_def struct_def len_dll_def)
    next
      case False
      let ?k = "peek_front (queue ?s)"
      show ?thesis
      proof (cases "partition_loader_func e ?k VP")
        case (Inl x)
        with ne False assms(1) have "s' = flush_bucket ?k ?s"
          by (auto simp: probe_phase_def Let_def)
        with i show ?thesis by (simp add: flush_bucket_inv)
      next
        case (Inr fetched)
        let ?s2 = "?s\<lparr>disk_buffer := fetched, disk_io_count := disk_io_count ?s + 1\<rparr>"
        have i2: "stage_inv ?s2" using i by (simp only: stage_inv_disk)
        show ?thesis
        proof (cases "fetched = []")
          case True
          with Inr ne False assms(1) have "s' = flush_bucket ?k ?s2"
            by (auto simp: probe_phase_def Let_def)
          with i2 show ?thesis by (simp only: flush_bucket_inv)
        next
          case nonempty: False
          with Inr ne False assms(1) have "match_loop X fetched ?s2 = Inr s'"
            by (auto simp: probe_phase_def Let_def split: sum.splits)
          from match_loop_inv[OF this i2] show ?thesis .
        qed
      qed
    qed
  qed
qed

lemma iteration_inv:
  "iteration X e s = Inr (c, s') \<Longrightarrow> stage_inv s \<Longrightarrow> stage_inv s'"
  by (auto simp: iteration_def split: sum.splits intro: probe_phase_inv admit_phase_inv)

lemma reach_inv: "reach X s \<Longrightarrow> stage_inv s"
  by (induction rule: reach.induct) (auto intro: stage_inv_init iteration_inv)

section \<open>Termination of the loop\<close>

text \<open>
  An example environment: the given arrivals before the admission loop, none after it,
  the given value of the upstream event, and a loader that returns the given result
  for every key.
\<close>

definition ex_env :: "string pydict list \<Rightarrow> bool \<Rightarrow> (exn + string pydict list) \<Rightarrow> string env" where
  "ex_env arrivals fin res =
     \<lparr>arrive_pre = arrivals, arrive_mid = [], upstream_finished = fin,
      partition_loader_func = (\<lambda>k n. res)\<rparr>"

lemma admit_loop_no_input:
  "input_queue s = [] \<Longrightarrow> admit_loop n s = Inr (n, s)"
  by (simp add: admit_loop.simps[of n s])

lemma iteration_quiescent:
  assumes "is_empty (queue s)" and "upstream_finished e"
    and "input_queue s @ arrive_pre e @ arrive_mid e = []"
  shows "iteration X e s = Inr (Break, s)"
proof -
  from assms(3) have a: "input_queue s = []" "arrive_pre e = []" "arrive_mid e = []" by auto
  have eq: "s\<lparr>input_queue := input_queue s @ arrive_pre e\<rparr> = s" using a by simp
  have "admit_phase e s = Inr s"
    unfolding admit_phase_def Let_def eq using admit_loop_no_input[OF a(1), of 0] by simp
  then show ?thesis using assms(1,2) a
    by (simp add: iteration_def probe_phase_def Let_def)
qed

lemma probe_phase_Break:
  assumes "probe_phase X e s1 = Inr (Break, s')"
  shows "is_empty (queue s1) \<and> upstream_finished e \<and> input_queue s1 @ arrive_mid e = [] \<and> s' = s1"
proof -
  have "is_empty (queue s1) \<and> upstream_finished e \<and> input_queue s1 @ arrive_mid e = []"
    using assms by (auto simp: probe_phase_def Let_def split: if_splits sum.splits)
  moreover from this have "probe_phase X e s1 = Inr (Break, s1)"
    by (simp add: probe_phase_def Let_def)
  ultimately show ?thesis using assms by simp
qed

lemma iteration_Break:
  assumes "iteration X e s = Inr (Break, s')" and "stage_inv s"
  shows "is_empty (queue s) \<and> upstream_finished e \<and>
         input_queue s @ arrive_pre e @ arrive_mid e = [] \<and> s' = s"
proof -
  from assms(1) obtain s1 where a: "admit_phase e s = Inr s1"
    and p: "probe_phase X e s1 = Inr (Break, s')"
    by (auto simp: iteration_def split: sum.splits)
  from assms(2) obtain xs where xs: "struct s xs" and w: "0 \<le> w s"
    by (auto simp: stage_inv_def)
  from admit_phase_char[OF a xs w] obtain ts where ts: "admitted_phase e s xs s1 ts" ..
  note b = probe_phase_Break[OF p]
  have "dll_size (queue s1) = int (length xs) + int (length ts)"
    using ts struct_size[OF xs] by (simp add: admitted_phase_def)
  moreover have "dll_size (queue s1) = 0" using b by (simp add: is_empty_def)
  ultimately have "length xs + length ts = 0" by linarith
  then have e: "xs = []" "ts = []" by simp_all
  with ts b have "input_queue s @ arrive_pre e = []" "arrive_mid e = []"
    by (auto simp: admitted_phase_def)
  moreover have "is_empty (queue s)" using e struct_size[OF xs] by (simp add: is_empty_def)
  ultimately have q: "is_empty (queue s) \<and> upstream_finished e \<and>
         input_queue s @ arrive_pre e @ arrive_mid e = []" using b by simp
  with iteration_quiescent[of s e X] assms(1) show ?thesis by simp
qed

lemma run_loop_ends_drained:
  assumes "reach X s" and "run_loop X es s = Some (Inr s')"
  shows "reach X s' \<and> is_empty (queue s') \<and> input_queue s' = [] \<and>
         (\<exists>pre e' post. es = pre @ e' # post \<and> run_loop X pre s = None \<and>
            upstream_finished e' \<and> arrive_pre e' = [] \<and> arrive_mid e' = [] \<and>
            iteration X e' s' = Inr (Break, s'))"
  using assms
proof (induction es arbitrary: s)
  case Nil
  then show ?case by simp
next
  case (Cons e es)
  show ?case
  proof (cases "iteration X e s")
    case (Inl x)
    with Cons.prems(2) show ?thesis by simp
  next
    case (Inr p)
    obtain c s1 where p: "p = (c, s1)" by (cases p)
    show ?thesis
    proof (cases c)
      case Break
      with Inr p Cons.prems(2) have eq: "s1 = s'" by simp
      from iteration_Break[OF _ reach_inv[OF Cons.prems(1)], of X e s1] Inr p Break
      have d: "is_empty (queue s)" "upstream_finished e"
        "input_queue s @ arrive_pre e @ arrive_mid e = []" "s1 = s"
        by simp_all
      have "(e # es) = [] @ e # es \<and> run_loop X [] s = None \<and>
            upstream_finished e \<and> arrive_pre e = [] \<and> arrive_mid e = [] \<and>
            iteration X e s = Inr (Break, s)"
        using d Inr p Break by simp
      then show ?thesis using d eq Cons.prems(1) by blast
    next
      case Continue
      with Inr p Cons.prems(2) have r: "run_loop X es s1 = Some (Inr s')" by simp
      have r1: "reach X s1" using reach_step[OF Cons.prems(1)] Inr p by simp
      from Cons.IH[OF r1 r] obtain pre e' post where
        a: "reach X s'" "is_empty (queue s')" "input_queue s' = []"
        and b: "es = pre @ e' # post" "run_loop X pre s1 = None" "upstream_finished e'"
          "arrive_pre e' = []" "arrive_mid e' = []" "iteration X e' s' = Inr (Break, s')"
        by blast
      have "e # es = (e # pre) @ e' # post \<and> run_loop X (e # pre) s = None"
        using b(1,2) Inr p Continue by simp
      then show ?thesis using a b(3-6) by blast
    qed
  qed
qed

text \<open>
  Claim C8. At the top of a pass of a reachable state: if the queue is empty, the
  upstream event is set and the input queue is empty (and stays so, the upstream having
  finished), the loop of \<open>run\<close> ends in that very pass, with the state unchanged; and a
  pass takes the \<open>break\<close> of line 190 only in that situation. In any other situation the
  loop does not end in that pass: unless the pass raises, the loop goes on with the next
  pass. So whenever a run of the loop, of any number of passes, ends at the \<open>break\<close>, it
  ends in a reachable state with an empty queue and an empty input queue, in a pass in
  which the upstream event is set and nothing arrives, after passes none of which ended
  the loop.
\<close>

theorem stage_terminates_exactly_when_drained:
  assumes "reach X s"
  shows "(is_empty (queue s) \<and> upstream_finished e \<and>
            input_queue s @ arrive_pre e @ arrive_mid e = []
          \<longrightarrow> run_loop X (e # es) s = Some (Inr s)) \<and>
         ((\<exists>s'. iteration X e s = Inr (Break, s')) \<longleftrightarrow>
            is_empty (queue s) \<and> upstream_finished e \<and>
            input_queue s @ arrive_pre e @ arrive_mid e = []) \<and>
         (\<not> (is_empty (queue s) \<and> upstream_finished e \<and>
               input_queue s @ arrive_pre e @ arrive_mid e = [])
          \<longrightarrow> run_loop X (e # es) s =
                (case iteration X e s of
                   Inl x \<Rightarrow> Some (Inl x)
                 | Inr (c, s') \<Rightarrow> run_loop X es s')) \<and>
         (\<forall>s'. run_loop X es s = Some (Inr s') \<longrightarrow>
            reach X s' \<and> is_empty (queue s') \<and> input_queue s' = [] \<and>
            (\<exists>pre e' post. es = pre @ e' # post \<and> run_loop X pre s = None \<and>
               upstream_finished e' \<and> arrive_pre e' = [] \<and> arrive_mid e' = [] \<and>
               iteration X e' s' = Inr (Break, s')))"
proof -
  let ?drained = "is_empty (queue s) \<and> upstream_finished e \<and>
            input_queue s @ arrive_pre e @ arrive_mid e = []"
  have a: "?drained \<longrightarrow> run_loop X (e # es) s = Some (Inr s)"
    using iteration_quiescent[of s e X] by simp
  have b: "(\<exists>s'. iteration X e s = Inr (Break, s')) \<longleftrightarrow> ?drained"
    using iteration_quiescent[of s e X] iteration_Break[of X e s] reach_inv[OF assms] by auto
  have c: "\<not> ?drained \<longrightarrow> run_loop X (e # es) s =
      (case iteration X e s of Inl x \<Rightarrow> Some (Inl x) | Inr (c, s') \<Rightarrow> run_loop X es s')"
  proof
    assume "\<not> ?drained"
    with b have nb: "\<And>s'. iteration X e s \<noteq> Inr (Break, s')" by blast
    show "run_loop X (e # es) s =
      (case iteration X e s of Inl x \<Rightarrow> Some (Inl x) | Inr (c, s') \<Rightarrow> run_loop X es s')"
    proof (cases "iteration X e s")
      case (Inl x)
      then show ?thesis by simp
    next
      case (Inr p)
      obtain c s1 where p: "p = (c, s1)" by (cases p)
      with Inr nb have "c = Continue" by (cases c) auto
      with Inr p show ?thesis by simp
    qed
  qed
  have d: "\<forall>s'. run_loop X es s = Some (Inr s') \<longrightarrow>
            reach X s' \<and> is_empty (queue s') \<and> input_queue s' = [] \<and>
            (\<exists>pre e' post. es = pre @ e' # post \<and> run_loop X pre s = None \<and>
               upstream_finished e' \<and> arrive_pre e' = [] \<and> arrive_mid e' = [] \<and>
               iteration X e' s' = Inr (Break, s'))"
    using run_loop_ends_drained[OF assms] by blast
  from a b c d show ?thesis by blast
qed

section \<open>Duplicate keys in a partition\<close>

text \<open>
  Example stream tuples and disk records of the customer stage, and a window that holds
  three admitted tuples: two of customer A and then one of customer B.
\<close>

definition ex_tuple :: "string \<Rightarrow> string \<Rightarrow> string pydict" where
  "ex_tuple cid oid =
     [''Order_ID'' \<mapsto> PyVal oid, ''Customer_ID'' \<mapsto> PyVal cid, ''Product_ID'' \<mapsto> PyVal ''P1'',
      ''quantity'' \<mapsto> PyVal ''3'', ''date'' \<mapsto> PyVal ''2024-01-01'']"

definition ex_row :: "string \<Rightarrow> string \<Rightarrow> string pydict" where
  "ex_row cid city = [''Customer_ID'' \<mapsto> PyVal cid, ''City_Category'' \<mapsto> PyVal city]"

definition ex_window :: "string consumer" where
  "ex_window =
     (admit_one (ex_tuple ''B'' ''3'') (PyVal ''B'')
       (admit_one (ex_tuple ''A'' ''2'') (PyVal ''A'')
         (admit_one (ex_tuple ''A'' ''1'') (PyVal ''A'')
           (init_consumer ''Customer_ID'' False None))))\<lparr>w := 0\<rparr>"

lemma ex_window_fields:
  "join_key_field ex_window = ''Customer_ID''"
  "\<not> is_final_stage ex_window"
  "w ex_window = 0"
  "dll_size (queue ex_window) = 3"
  "output_queue ex_window = []"
  "total_joined ex_window = 0"
  "input_queue ex_window = []"
  by (simp_all add: ex_window_def init_consumer_def dll_append_fields dll_init_def)

lemma ex_window_buckets:
  "bucket (hash_table ex_window) (PyVal ''A'') = [(ex_tuple ''A'' ''1'', 0), (ex_tuple ''A'' ''2'', 1)]"
  "bucket (hash_table ex_window) (PyVal ''B'') = [(ex_tuple ''B'' ''3'', 2)]"
  by (simp_all add: ex_window_def init_consumer_def dll_append_fields dll_init_def bucket_def)

lemma struct_w [simp]: "struct (s\<lparr>w := x\<rparr>) xs = struct s xs"
  by (simp add: struct_def)

lemma ex_window_inv: "stage_inv ex_window"
proof -
  let ?s0 = "init_consumer ''Customer_ID'' False None :: string consumer"
  let ?s1 = "admit_one (ex_tuple ''A'' ''1'') (PyVal ''A'') ?s0"
  let ?s2 = "admit_one (ex_tuple ''A'' ''2'') (PyVal ''A'') ?s1"
  let ?s3 = "admit_one (ex_tuple ''B'' ''3'') (PyVal ''B'') ?s2"
  have "struct ?s0 []"
    by (simp add: struct_def init_consumer_def dll_init_def dll_rep_def bucket_def)
  then have "struct ?s1 ([] @ [allocated (queue ?s0)])" by (rule struct_admit_one)
  then have "struct ?s2 (([] @ [allocated (queue ?s0)]) @ [allocated (queue ?s1)])"
    by (rule struct_admit_one)
  then have "struct ?s3 ((([] @ [allocated (queue ?s0)]) @ [allocated (queue ?s1)]) @ [allocated (queue ?s2)])"
    by (rule struct_admit_one)
  then have "\<exists>xs. struct ex_window xs"
    unfolding ex_window_def struct_w by (rule exI)
  then show ?thesis using ex_window_fields by (simp add: stage_inv_def HS_def)
qed

lemma match_loop_append:
  "match_loop X (as @ bs) s =
     (case match_loop X as s of Inl x \<Rightarrow> Inl x | Inr s' \<Rightarrow> match_loop X bs s')"
proof (induction as arbitrary: s)
  case Nil
  then show ?case by simp
next
  case (Cons r as)
  show ?case
  proof (cases "r (join_key_field s)")
    case None
    then show ?thesis by simp
  next
    case (Some k)
    then show ?thesis using Cons.IH[of "match_record X r k s"] by simp
  qed
qed

lemma match_record_absent:
  "hash_table s k = None \<Longrightarrow> match_record X r k s = s"
  by (simp add: match_record_def)




section \<open>Fan-out\<close>

text \<open>
  What \<open>_write_fact_to_batch\<close> writes: the batch buffer and the counters of loaded and
  dropped records and of logged drops.
\<close>

definition sink_state :: "'v consumer \<Rightarrow> 'v fact_record list \<times> int \<times> int \<times> int" where
  "sink_state s = (final_load_batch s, total_loaded s, dropped_records s, drop_log_samples s)"

lemma write_fact_sink_cong:
  assumes "sink_state s = sink_state s'" and "dim_lookups s = dim_lookups s'"
  shows "sink_state (write_fact_to_batch X t s) = sink_state (write_fact_to_batch X t s')"
  using assms
  by (simp add: sink_state_def write_fact_to_batch_def drop_with_log_def Let_def
      split: sum.splits option.splits)

lemma match_entry_sink:
  assumes "is_final_stage s"
  shows "sink_state (match_entry X r k en s) = sink_state (write_fact_to_batch X (fst en ++ r) s)"
proof -
  let ?s2 = "(remove_entry k en s)\<lparr>total_joined := total_joined (remove_entry k en s) + 1\<rparr>"
  have "match_entry X r k en s = write_fact_to_batch X (fst en ++ r) ?s2"
    using assms by (simp add: match_entry_def Let_def)
  moreover have "sink_state ?s2 = sink_state s" "dim_lookups ?s2 = dim_lookups s"
    by (simp_all add: sink_state_def remove_entry_def)
  ultimately show ?thesis using write_fact_sink_cong[of ?s2 s X "fst en ++ r"] by simp
qed

lemma write_fact_dim_lookups_fold:
  "dim_lookups (fold (write_fact_to_batch X) ts s) = dim_lookups s"
  by (induction ts arbitrary: s) simp_all

lemma fold_match_entry_sink:
  assumes "is_final_stage s" and "sink_state s = sink_state s'" and "dim_lookups s = dim_lookups s'"
  shows "sink_state (fold (match_entry X r k) es s) =
         sink_state (fold (write_fact_to_batch X) (map (\<lambda>en. fst en ++ r) es) s')"
  using assms
proof (induction es arbitrary: s s')
  case Nil
  then show ?case by simp
next
  case (Cons en es)
  have a: "sink_state (match_entry X r k en s) = sink_state (write_fact_to_batch X (fst en ++ r) s')"
    using match_entry_sink[OF Cons.prems(1)] write_fact_sink_cong[OF Cons.prems(2,3)] by simp
  have b: "dim_lookups (match_entry X r k en s) = dim_lookups (write_fact_to_batch X (fst en ++ r) s')"
    using Cons.prems(3) by simp
  have c: "is_final_stage (match_entry X r k en s)" using Cons.prems(1) by simp
  from Cons.IH[OF c a b] show ?case by simp
qed

lemma match_record_sink:
  assumes "is_final_stage s"
  shows "sink_state (match_record X r k s) =
         sink_state (fold (write_fact_to_batch X) (map (\<lambda>en. fst en ++ r) (bucket (hash_table s) k)) s)"
proof (cases "hash_table s k")
  case None
  then show ?thesis by (simp add: match_record_def bucket_def)
next
  case (Some es)
  have "sink_state (match_record X r k s) = sink_state (fold (match_entry X r k) es s)"
    using Some by (simp add: match_record_def Let_def sink_state_def)
  also have "\<dots> = sink_state (fold (write_fact_to_batch X) (map (\<lambda>en. fst en ++ r) es) s)"
    using fold_match_entry_sink[OF assms, of s X r k es] by simp
  finally show ?thesis using Some by (simp add: bucket_def)
qed


text \<open>
  Example values of the product stage, which is the final one: a disk record of product
  P1, a window that holds two admitted tuples of that product, and the fact record
  \<open>_write_fact_to_batch\<close> builds from the tuple of an order enriched with that record.
\<close>

definition ex_prow :: "string pydict" where
  "ex_prow = [''Product_ID'' \<mapsto> PyVal ''P1'', ''Price'' \<mapsto> PyVal ''9.5'',
     ''StoreID'' \<mapsto> PyVal ''S1'', ''SupplierID'' \<mapsto> PyVal ''U1'']"

definition ex_final_window :: "string consumer" where
  "ex_final_window =
     (admit_one (ex_tuple ''1'' ''902'') (PyVal ''P1'')
       (admit_one (ex_tuple ''1'' ''901'') (PyVal ''P1'')
         (init_consumer ''Product_ID'' True (Some ex_lookups))))\<lparr>w := 0\<rparr>"

definition ex_fact :: "string \<Rightarrow> string fact_record" where
  "ex_fact oid =
     \<lparr>f_order_id = PyVal oid, f_order_line_number = 1, f_customer_key = 11,
      f_product_key = 21, f_store_key = 31, f_supplier_key = 41, f_date_key = 20240101,
      f_quantity = PyVal ''3'', f_unit_price = ''9.5'', f_total_purchase = ''3*9.5'',
      f_discount_amount = 0, f_weekend_flag = 0, f_order_channel = ''In-Store''\<rparr>"

lemma admit_one_drop_log_samples [simp]:
  "drop_log_samples (admit_one t k s) = drop_log_samples s"
  by (simp add: admit_one_def Let_def split: prod.splits)

lemma ex_final_window_fields:
  "join_key_field ex_final_window = ''Product_ID''"
  "is_final_stage ex_final_window"
  "dim_lookups ex_final_window = Some ex_lookups"
  "w ex_final_window = 0"
  "dll_size (queue ex_final_window) = 2"
  "total_joined ex_final_window = 0"
  "final_load_batch ex_final_window = []"
  "total_loaded ex_final_window = 0"
  "dropped_records ex_final_window = 0"
  "drop_log_samples ex_final_window = 0"
  "bucket (hash_table ex_final_window) (PyVal ''P1'') =
     [(ex_tuple ''1'' ''901'', 0), (ex_tuple ''1'' ''902'', 1)]"
  by (simp_all add: ex_final_window_def init_consumer_def dll_append_fields dll_init_def bucket_def)

lemma ex_final_window_inv: "stage_inv ex_final_window"
proof -
  let ?s0 = "init_consumer ''Product_ID'' True (Some ex_lookups) :: string consumer"
  let ?s1 = "admit_one (ex_tuple ''1'' ''901'') (PyVal ''P1'') ?s0"
  let ?s2 = "admit_one (ex_tuple ''1'' ''902'') (PyVal ''P1'') ?s1"
  have "struct ?s0 []"
    by (simp add: struct_def init_consumer_def dll_init_def dll_rep_def bucket_def)
  then have "struct ?s1 ([] @ [allocated (queue ?s0)])" by (rule struct_admit_one)
  then have "struct ?s2 (([] @ [allocated (queue ?s0)]) @ [allocated (queue ?s1)])"
    by (rule struct_admit_one)
  then have "\<exists>xs. struct ex_final_window xs"
    unfolding ex_final_window_def struct_w by (rule exI)
  then show ?thesis using ex_final_window_fields by (simp add: stage_inv_def HS_def)
qed

lemma ex_build_fact:
  "build_fact ex_ext (Some ex_lookups) (ex_tuple ''1'' oid ++ ex_prow) = Inr (Some (ex_fact oid))"
  by (simp add: build_fact_def bind_def get_item_def Let_def ex_ext_def ex_lookups_def
      ex_tuple_def ex_prow_def ex_fact_def truthy_def map_add_def)

lemma ex_final_sink:
  "sink_state (fold (write_fact_to_batch ex_ext)
      [ex_tuple ''1'' ''901'' ++ ex_prow, ex_tuple ''1'' ''902'' ++ ex_prow] ex_final_window) =
   ([ex_fact ''901'', ex_fact ''902''], 0, 0, 0)"
  by (simp add: write_fact_to_batch_def ex_build_fact ex_final_window_fields Let_def
      BATCH_INSERT_SIZE_def sink_state_def)

lemma match_loop_untouched:
  assumes "match_loop X pre s = Inr s1"
    and "\<forall>p \<in> set pre. p (join_key_field s) \<noteq> Some k"
  shows "hash_table s1 k = hash_table s k"
  using match_loop_hash_table[OF assms(1)] assms(2) by (auto simp: image_iff)

lemma bucket_nodes_in_queue:
  assumes "stage_inv s"
  shows "map snd (bucket (hash_table s) k) =
         filter (\<lambda>a. node_key (queue s) a = k) (nodes_of (queue s))"
proof -
  from assms obtain xs where "struct s xs" by (auto simp: stage_inv_def)
  then show ?thesis using struct_nodes_of[of s xs] by (simp add: struct_def)
qed

text \<open>
  Claim C5. Let \<open>r\<close> be the first record of the fetched partition that carries the key
  \<open>k\<close>, and let the bucket of \<open>k\<close> hold \<open>N\<close> entries when the loop over the partition
  starts; in a state that satisfies the loop invariant these are the \<open>N\<close> nodes of the
  queue with key \<open>k\<close>. The records before \<open>r\<close> leave the bucket alone, and \<open>r\<close> takes all
  of it: \<open>total_joined\<close> grows by \<open>N\<close> and the bucket is gone. A stage that is not the
  final one puts \<open>N\<close> enriched tuples on its output queue, in bucket order, each the
  stream tuple updated with \<open>r\<close>. The final stage hands the same \<open>N\<close> enriched tuples, in
  the same order, to \<open>_write_fact_to_batch\<close>: batch buffer and sink counters end as if
  that function had been called on them one after the other. The fields of an enriched
  tuple are the union of the fields of the stream tuple and of \<open>r\<close>.
\<close>

theorem fan_out_preserved:
  assumes "stage_inv s" and "match_loop X pre s = Inr s1"
    and "\<forall>p \<in> set pre. p (join_key_field s) \<noteq> Some k"
    and "r (join_key_field s) = Some k"
  shows "length (bucket (hash_table s) k) =
           length (filter (\<lambda>a. node_key (queue s) a = k) (nodes_of (queue s))) \<and>
         bucket (hash_table s1) k = bucket (hash_table s) k \<and>
         match_loop X (pre @ [r]) s = Inr (match_record X r k s1) \<and>
         total_joined (match_record X r k s1) =
           total_joined s1 + int (length (bucket (hash_table s) k)) \<and>
         hash_table (match_record X r k s1) k = None \<and>
         (\<not> is_final_stage s \<longrightarrow>
            output_queue (match_record X r k s1) =
              output_queue s1 @ map (\<lambda>e. fst e ++ r) (bucket (hash_table s) k) \<and>
            total_output (match_record X r k s1) =
              total_output s1 + int (length (bucket (hash_table s) k))) \<and>
         (is_final_stage s \<longrightarrow>
            sink_state (match_record X r k s1) =
              sink_state (fold (write_fact_to_batch X)
                (map (\<lambda>e. fst e ++ r) (bucket (hash_table s) k)) s1)) \<and>
         (\<forall>e \<in> set (bucket (hash_table s) k). dom (fst e ++ r) = dom (fst e) \<union> dom r)"
proof -
  have b: "bucket (hash_table s1) k = bucket (hash_table s) k"
    using match_loop_untouched[OF assms(2,3)] by (simp add: bucket_def)
  note c = match_loop_counts[OF assms(2)]
  have "length (bucket (hash_table s) k) =
      length (filter (\<lambda>a. node_key (queue s) a = k) (nodes_of (queue s)))"
    using bucket_nodes_in_queue[OF assms(1), of k] by (metis length_map)
  moreover have "match_loop X (pre @ [r]) s = Inr (match_record X r k s1)"
    using assms(2,4) c by (simp add: match_loop_append)
  moreover have "total_joined (match_record X r k s1) =
           total_joined s1 + int (length (bucket (hash_table s) k))"
    using match_record_counts[of X r k s1] b by simp
  moreover have "hash_table (match_record X r k s1) k = None"
    by (simp add: match_record_hash_table)
  moreover have "\<not> is_final_stage s \<longrightarrow>
            output_queue (match_record X r k s1) =
              output_queue s1 @ map (\<lambda>e. fst e ++ r) (bucket (hash_table s) k) \<and>
            total_output (match_record X r k s1) =
              total_output s1 + int (length (bucket (hash_table s) k))"
    using match_record_output[of s1 X r k] b c by simp
  moreover have "is_final_stage s \<longrightarrow>
            sink_state (match_record X r k s1) =
              sink_state (fold (write_fact_to_batch X)
                (map (\<lambda>e. fst e ++ r) (bucket (hash_table s) k)) s1)"
    using match_record_sink[of s1 X r k] b c by simp
  ultimately show ?thesis using b by auto
qed

theorem fan_out_preserved_witness:
  "stage_inv ex_window \<and>
   match_loop ex_ext [ex_row ''0'' ''Z''] ex_window = Inr ex_window \<and>
   ex_row ''A'' ''X'' (join_key_field ex_window) = Some (PyVal ''A'') \<and>
   length (bucket (hash_table ex_window) (PyVal ''A'')) = 2 \<and>
   output_queue (match_record ex_ext (ex_row ''A'' ''X'') (PyVal ''A'') ex_window) =
     [ex_tuple ''A'' ''1'' ++ ex_row ''A'' ''X'', ex_tuple ''A'' ''2'' ++ ex_row ''A'' ''X''] \<and>
   total_joined (match_record ex_ext (ex_row ''A'' ''X'') (PyVal ''A'') ex_window) = 2 \<and>
   stage_inv ex_final_window \<and> is_final_stage ex_final_window \<and>
   match_loop ex_ext [] ex_final_window = Inr ex_final_window \<and>
   ex_prow (join_key_field ex_final_window) = Some (PyVal ''P1'') \<and>
   total_joined (match_record ex_ext ex_prow (PyVal ''P1'') ex_final_window) = 2 \<and>
   sink_state (match_record ex_ext ex_prow (PyVal ''P1'') ex_final_window) =
     ([ex_fact ''901'', ex_fact ''902''], 0, 0, 0)"
proof -
  have h: "hash_table ex_window (PyVal ''0'') = None"
    by (simp add: ex_window_def init_consumer_def)
  have m: "match_loop ex_ext [ex_row ''0'' ''Z''] ex_window = Inr ex_window"
    using h by (simp add: ex_window_fields ex_row_def match_record_absent)
  have p: "\<forall>p \<in> set [ex_row ''0'' ''Z'']. p (join_key_field ex_window) \<noteq> Some (PyVal ''A'')"
    by (simp add: ex_window_fields ex_row_def)
  have k: "ex_row ''A'' ''X'' (join_key_field ex_window) = Some (PyVal ''A'')"
    by (simp add: ex_window_fields ex_row_def)
  have m': "match_loop ex_ext [] ex_final_window = Inr ex_final_window" by simp
  have p': "\<forall>p \<in> set []. p (join_key_field ex_final_window) \<noteq> Some (PyVal ''P1'')" by simp
  have k': "ex_prow (join_key_field ex_final_window) = Some (PyVal ''P1'')"
    by (simp add: ex_final_window_fields ex_prow_def)
  have a: "length (bucket (hash_table ex_window) (PyVal ''A'')) = 2 \<and>
     output_queue (match_record ex_ext (ex_row ''A'' ''X'') (PyVal ''A'') ex_window) =
       [ex_tuple ''A'' ''1'' ++ ex_row ''A'' ''X'', ex_tuple ''A'' ''2'' ++ ex_row ''A'' ''X''] \<and>
     total_joined (match_record ex_ext (ex_row ''A'' ''X'') (PyVal ''A'') ex_window) = 2"
    using fan_out_preserved[of ex_window ex_ext "[ex_row ''0'' ''Z'']" ex_window "PyVal ''A''"
        "ex_row ''A'' ''X''", OF ex_window_inv m p k]
    by (simp add: ex_window_fields ex_window_buckets)
  have b: "total_joined (match_record ex_ext ex_prow (PyVal ''P1'') ex_final_window) = 2 \<and>
     sink_state (match_record ex_ext ex_prow (PyVal ''P1'') ex_final_window) =
       ([ex_fact ''901'', ex_fact ''902''], 0, 0, 0)"
    using fan_out_preserved[of ex_final_window ex_ext "[]" ex_final_window "PyVal ''P1''"
        ex_prow, OF ex_final_window_inv m' p' k'] ex_final_sink
    by (simp add: ex_final_window_fields)
  show ?thesis
    using a b m k k' ex_window_inv ex_final_window_inv ex_final_window_fields(2) by simp
qed

section \<open>A failed or empty probe flushes the bucket of the oldest key\<close>

lemma ex_window_front:
  "peek_front (queue ex_window) = PyVal ''A''"
  by (simp add: ex_window_def init_consumer_def dll_init_def dll_append_def peek_front_def Let_def)

text \<open>
  Claim C3. In a state that satisfies the loop invariant and has the key \<open>k\<close> at the
  front of a non-empty queue, let the partition fetch for \<open>k\<close> raise or return an empty
  partition. Then the pass raises nothing and continues the loop (the loader was called
  once); every entry of the bucket of \<open>k\<close> has left the hash table and the queue, the
  other entries staying in their order; no node with key \<open>k\<close> is left in the queue, so
  the next probe is not for these entries; \<open>w\<close> has grown by the number of entries
  removed; and nothing was joined, forwarded or written to the batch.
\<close>

theorem failed_probe_flushes:
  assumes "stage_inv s" and "\<not> is_empty (queue s)"
    and "peek_front (queue s) = k" and "k \<noteq> PyNone"
    and "partition_loader_func e k VP = Inl x \<or> partition_loader_func e k VP = Inr []"
  shows "\<exists>s'. probe_phase X e s = Inr (Continue, s') \<and>
           bucket (hash_table s') k = [] \<and>
           (\<forall>k'. k' \<noteq> k \<longrightarrow> hash_table s' k' = hash_table s k') \<and>
           nodes_of (queue s') = filter (\<lambda>a. node_key (queue s) a \<noteq> k) (nodes_of (queue s)) \<and>
           node_key (queue s') = node_key (queue s) \<and>
           (\<forall>a \<in> set (nodes_of (queue s')). node_key (queue s') a \<noteq> k) \<and>
           len_dll (queue s') = len_dll (queue s) - int (length (bucket (hash_table s) k)) \<and>
           w s' = w s + int (length (bucket (hash_table s) k)) \<and>
           output_queue s' = output_queue s \<and> total_output s' = total_output s \<and>
           total_joined s' = total_joined s \<and> final_load_batch s' = final_load_batch s \<and>
           total_loaded s' = total_loaded s \<and> stage_inv s'"
proof -
  let ?s0 = "s\<lparr>input_queue := input_queue s @ arrive_mid e\<rparr>"
  define s1 where "s1 = (case partition_loader_func e k VP of Inl x \<Rightarrow> ?s0
     | Inr fetched \<Rightarrow> ?s0\<lparr>disk_buffer := fetched, disk_io_count := disk_io_count ?s0 + 1\<rparr>)"
  have eq: "hash_table s1 = hash_table s" "queue s1 = queue s" "w s1 = w s"
    "output_queue s1 = output_queue s" "total_output s1 = total_output s"
    "total_joined s1 = total_joined s" "final_load_batch s1 = final_load_batch s"
    "total_loaded s1 = total_loaded s"
    by (simp_all add: s1_def split: sum.splits)
  from assms(1) obtain xs where xs: "struct s xs" by (auto simp: stage_inv_def)
  then have xs1: "struct s1 xs" using struct_cong[of s1 s xs] eq by simp
  have inv1: "stage_inv s1" using assms(1) xs1 eq by (auto simp: stage_inv_def)
  let ?s' = "flush_bucket k s1"
  have p: "probe_phase X e s = Inr (Continue, ?s')"
    using assms(2-5) by (auto simp: probe_phase_def Let_def s1_def)
  note st = struct_flush_bucket[OF xs1, of k]
  note c = flush_bucket_counts[of k s1]
  note f = flush_bucket_frame[of k s1]
  have "nodes_of (queue ?s') = filter (\<lambda>a. node_key (queue s) a \<noteq> k) (nodes_of (queue s))"
    using st struct_nodes_of[of ?s'] struct_nodes_of[OF xs] eq by simp
  moreover have "stage_inv ?s'" using inv1 by (rule flush_bucket_inv)
  moreover have "node_key (queue ?s') = node_key (queue s)" using c eq by simp
  ultimately show ?thesis using p st c f eq
    by (intro exI[of _ ?s']) (simp add: len_dll_def)
qed


theorem failed_probe_flushes_witness:
  "stage_inv ex_window \<and> \<not> is_empty (queue ex_window) \<and>
   peek_front (queue ex_window) = PyVal ''A'' \<and>
   partition_loader_func (ex_env [] False (Inl DbError)) (PyVal ''A'') VP = Inl DbError \<and>
   (\<exists>s'. probe_phase ex_ext (ex_env [] False (Inl DbError)) ex_window = Inr (Continue, s') \<and>
      bucket (hash_table s') (PyVal ''A'') = [] \<and> w s' = 2 \<and> len_dll (queue s') = 1 \<and>
      output_queue s' = [] \<and> total_joined s' = 0)"
proof -
  have a: "\<not> is_empty (queue ex_window)" by (simp add: is_empty_def ex_window_fields)
  have b: "(PyVal ''A'' :: string pyval) \<noteq> PyNone" by simp
  have c: "partition_loader_func (ex_env [] False (Inl DbError)) (PyVal ''A'') VP = Inl DbError \<or>
           partition_loader_func (ex_env [] False (Inl DbError)) (PyVal ''A'') VP = Inr []"
    by (simp add: ex_env_def)
  show ?thesis
    using failed_probe_flushes[OF ex_window_inv a ex_window_front b c, of ex_ext]
      ex_window_inv a ex_window_front
    by (auto simp: ex_window_fields ex_window_buckets ex_env_def len_dll_def)
qed

section \<open>The counter \<open>w\<close> and the length of the queue\<close>

text \<open>
  The state of the customer stage after its first pass, when one tuple of customer A
  had arrived and the partition fetched for A held no record of A.
\<close>

definition ex_one :: "string consumer" where
  "ex_one =
     (admit_one (ex_tuple ''A'' ''1'') (PyVal ''A'') (init_consumer ''Customer_ID'' False None))
       \<lparr>disk_buffer := [ex_row ''Z'' ''C''], w := 0, disk_io_count := 1\<rparr>"

lemma ex_one_pass:
  "iteration ex_ext (ex_env [ex_tuple ''A'' ''1''] False (Inr [ex_row ''Z'' ''C'']))
     (init_consumer ''Customer_ID'' False None) = Inr (Continue, ex_one)"
proof -
  let ?e = "ex_env [ex_tuple ''A'' ''1''] False (Inr [ex_row ''Z'' ''C''])"
  let ?i = "init_consumer ''Customer_ID'' False None :: string consumer"
  let ?a = "admit_one (ex_tuple ''A'' ''1'') (PyVal ''A'') ?i"
  have i: "?i\<lparr>input_queue := []\<rparr> = ?i" by (simp add: init_consumer_def)
  have wi: "w ?i = 10000" and jk: "join_key_field ?i = ''Customer_ID''"
    and iq: "input_queue ?i = []"
    by (simp_all add: init_consumer_def HS_def)
  have k: "ex_tuple ''A'' ''1'' ''Customer_ID'' = Some (PyVal ''A'')"
    by (simp add: ex_tuple_def)
  have step: "admit_loop 1 ?a = Inr (1, ?a)"
    by (rule admit_loop_no_input) (simp add: init_consumer_def)
  have "admit_loop 0 (?i\<lparr>input_queue := [ex_tuple ''A'' ''1'']\<rparr>) = Inr (1, ?a)"
    by (subst admit_loop.simps) (simp add: wi jk k i step)
  then have a: "admit_phase ?e ?i = Inr (?a\<lparr>w := 0\<rparr>)"
    by (simp add: admit_phase_def ex_env_def Let_def wi iq)
  let ?b = "?a\<lparr>w := 0\<rparr>"
  have ne: "\<not> is_empty (queue ?b)"
    by (simp add: is_empty_def dll_append_fields init_consumer_def dll_init_def)
  have pf: "peek_front (queue ?b) = PyVal ''A''"
    by (simp add: init_consumer_def dll_init_def dll_append_def peek_front_def Let_def)
  have ib: "?b\<lparr>input_queue := input_queue ?b @ []\<rparr> = ?b"
    by (simp add: init_consumer_def)
  let ?c = "?b\<lparr>disk_buffer := [ex_row ''Z'' ''C''], disk_io_count := disk_io_count ?b + 1\<rparr>"
  have hz: "hash_table ?c (PyVal ''Z'') = None" by (simp add: init_consumer_def)
  have rz: "ex_row ''Z'' ''C'' (join_key_field ?c) = Some (PyVal ''Z'')"
    by (simp add: init_consumer_def ex_row_def)
  have ml: "match_loop ex_ext [ex_row ''Z'' ''C''] ?c = Inr ?c"
    using rz match_record_absent[OF hz] by simp
  have c: "?c = ex_one" by (simp add: ex_one_def init_consumer_def)
  have "probe_phase ex_ext ?e ?b = Inr (Continue, ?c)"
    unfolding probe_phase_def Let_def ex_env_def
    apply (simp only: env.simps ib)
    apply (simp only: ne pf if_False)
    apply (simp only: ml sum.case pyval.distinct if_False list.distinct)
    done
  then have "probe_phase ex_ext ?e ?b = Inr (Continue, ex_one)" by (simp only: c)
  with a show ?thesis by (simp add: iteration_def)
qed


lemma ex_one_fields:
  "w ex_one = 0" "len_dll (queue ex_one) = 1"
  by (simp_all add: ex_one_def len_dll_def dll_append_fields init_consumer_def dll_init_def)

text \<open>
  Claim C2 as stated fails. After the first pass of the example, at the top of the
  second pass, \<open>w\<close> is 0 and the queue holds one entry: their sum is 1, not \<open>HS\<close>. The
  admission did not take 1 from \<open>w\<close>; line 185 set \<open>w\<close> to 0.
\<close>

theorem free_plus_order_counterexample:
  "iteration ex_ext (ex_env [ex_tuple ''A'' ''1''] False (Inr [ex_row ''Z'' ''C'']))
     (init_consumer ''Customer_ID'' False None) = Inr (Continue, ex_one) \<and>
   w (init_consumer ''Customer_ID'' False None :: string consumer) = HS \<and>
   w ex_one + len_dll (queue ex_one) = 1 \<and> HS = 10000"
  using ex_one_pass by (simp add: ex_one_fields HS_def init_consumer_def)

lemma remove_entry_counts:
  "w (remove_entry k en s) = w s + 1 \<and>
   len_dll (queue (remove_entry k en s)) = len_dll (queue s) - 1"
  by (simp add: len_dll_def)

lemma match_entry_counts:
  "w (match_entry X r k en s) = w s + 1 \<and>
   len_dll (queue (match_entry X r k en s)) = len_dll (queue s) - 1"
  by (simp add: len_dll_def)

text \<open>
  Claim C2, amended. At the top of every pass \<open>w\<close> is not negative and \<open>w\<close> plus the
  length of the queue is at most \<open>HS\<close>. Every removal of an entry, in a flush or in a
  match, adds exactly one to \<open>w\<close> and takes one from the length of the queue, in any
  state. The admission of a pass admits some number \<open>n\<close> of tuples, at most \<open>w\<close>; it
  lengthens the queue by \<open>n\<close> and leaves \<open>w\<close> alone if \<open>n\<close> is 0, and sets \<open>w\<close> to 0
  otherwise.
\<close>

theorem free_plus_order_bounded:
  assumes "reach X s"
  shows "0 \<le> w s \<and> w s + len_dll (queue s) \<le> HS \<and>
         (\<forall>s0 k en r. w (remove_entry k en s0) = w s0 + 1 \<and>
            len_dll (queue (remove_entry k en s0)) = len_dll (queue s0) - 1 \<and>
            w (match_entry X r k en s0) = w s0 + 1 \<and>
            len_dll (queue (match_entry X r k en s0)) = len_dll (queue s0) - 1) \<and>
         (\<forall>e s1. admit_phase e s = Inr s1 \<longrightarrow>
            0 \<le> len_dll (queue s1) - len_dll (queue s) \<and>
            len_dll (queue s1) - len_dll (queue s) \<le> w s \<and>
            w s1 = (if len_dll (queue s1) = len_dll (queue s) then w s else 0))"
proof -
  from reach_inv[OF assms] obtain xs where xs: "struct s xs" and w: "0 \<le> w s"
    and b: "w s + dll_size (queue s) \<le> HS"
    by (auto simp: stage_inv_def)
  have "0 \<le> len_dll (queue s1) - len_dll (queue s) \<and>
        len_dll (queue s1) - len_dll (queue s) \<le> w s \<and>
        w s1 = (if len_dll (queue s1) = len_dll (queue s) then w s else 0)"
    if "admit_phase e s = Inr s1" for e s1
  proof -
    from admit_phase_char[OF that xs w] obtain ts where "admitted_phase e s xs s1 ts" ..
    then show ?thesis by (auto simp: admitted_phase_def len_dll_def)
  qed
  then show ?thesis using w b remove_entry_counts match_entry_counts
    by (simp add: len_dll_def)
qed

theorem free_plus_order_bounded_witness:
  "reach ex_ext ex_one \<and> 0 \<le> w ex_one \<and> w ex_one + len_dll (queue ex_one) \<le> HS"
proof -
  have "reach ex_ext ex_one"
    using reach_step[OF reach_init ex_one_pass] .
  then show ?thesis using free_plus_order_bounded[of ex_ext ex_one] by simp
qed

section \<open>The stream producer (hybridjoin.py, class StreamProducer)\<close>

text \<open>
  The producer thread. \<open>stream_buffer\<close> holds the tuples put on the stream queue so
  far, \<open>producer_finished\<close> is the event of that name, \<open>total_streamed\<close> the metric.
  \<open>put\<close> is modelled as an append: the wait for room in a full queue is not modelled.
\<close>

record 'v producer =
  stream_buffer :: "'v pydict list"
  producer_finished :: bool
  total_streamed :: int

text \<open>
  What the producer calls: \<open>int(x)\<close> and \<open>str(x)\<close> as Python values. The rows are what
  \<open>pd.read_csv\<close>, the removal of the unnamed column and the conversion of the date
  column give, one list of cells per row, or the exception one of them raised.
\<close>

record 'v conv =
  int_value :: "'v pyval \<Rightarrow> exn + 'v pyval"
  str_value :: "'v pyval \<Rightarrow> 'v pyval"

definition cell :: "'v pyval list \<Rightarrow> nat \<Rightarrow> exn + 'v pyval" where
  "cell row i = (if i < length row then Inr (row ! i) else Inl IndexError)"

text \<open>Lines 79 to 85.\<close>

definition make_stream_tuple :: "'v conv \<Rightarrow> 'v pyval list \<Rightarrow> exn + 'v pydict" where
  "make_stream_tuple C row =
     bind (cell row 0) (\<lambda>c0. bind (int_value C c0) (\<lambda>order_id.
     bind (cell row 1) (\<lambda>c1. bind (int_value C c1) (\<lambda>customer_id.
     bind (cell row 2) (\<lambda>c2.
     bind (cell row 3) (\<lambda>c3. bind (int_value C c3) (\<lambda>quantity.
     bind (cell row 4) (\<lambda>date.
     Inr [''Order_ID'' \<mapsto> order_id, ''Customer_ID'' \<mapsto> customer_id,
          ''Product_ID'' \<mapsto> str_value C c2, ''quantity'' \<mapsto> quantity,
          ''date'' \<mapsto> date]))))))))"

text \<open>
  Lines 78 to 105: the loop over the rows. The result is the exception that left the
  loop, if any, and the state reached.
\<close>

fun stream_rows :: "'v conv \<Rightarrow> 'v pyval list list \<Rightarrow> int \<Rightarrow> 'v producer \<Rightarrow> exn option \<times> 'v producer" where
  "stream_rows C [] idx p = (None, p)"
| "stream_rows C (row # rest) idx p =
     (case make_stream_tuple C row of
        Inl x \<Rightarrow> (Some x, p)
      | Inr stream_tuple \<Rightarrow>
          stream_rows C rest (idx + 1)
            (p\<lparr>stream_buffer := stream_buffer p @ [stream_tuple], total_streamed := idx + 1\<rparr>))"

text \<open>
  Lines 55 to 114: \<open>StreamProducer.run\<close>. The \<open>except\<close> clause prints and raises again;
  the \<open>finally\<close> clause sets the event on every path. The first component is the
  exception that leaves \<open>run\<close>, if any.
\<close>

definition producer_run ::
  "'v conv \<Rightarrow> exn + 'v pyval list list \<Rightarrow> 'v producer \<Rightarrow> exn option \<times> 'v producer" where
  "producer_run C csv p =
     (let (raised, p1) = (case csv of Inl x \<Rightarrow> (Some x, p) | Inr rows \<Rightarrow> stream_rows C rows 0 p)
      in (raised, p1\<lparr>producer_finished := True\<rparr>))"

text \<open>
  Claim C10. Whatever the input is and whether or not reading or streaming it raises,
  \<open>producer_finished\<close> is set when \<open>run\<close> is left; a failure to read the file leaves
  \<open>run\<close> as an exception with the event set and nothing streamed.
\<close>

theorem producer_always_signals:
  "producer_finished (snd (producer_run C csv p)) \<and>
   (\<forall>x. fst (producer_run C (Inl x) p) = Some x \<and>
        producer_finished (snd (producer_run C (Inl x) p)) \<and>
        stream_buffer (snd (producer_run C (Inl x) p)) = stream_buffer p)"
  by (simp add: producer_run_def Let_def split: prod.splits sum.splits)

section \<open>The window never holds more than \<open>HS\<close> entries\<close>

text \<open>
  The states a pass of the loop goes through, one after each admitted tuple and one
  after each removed entry, in the order in which they arise. Each function follows
  the loop of the same name and lists the states that loop visits.
\<close>

fun fold_states :: "('a \<Rightarrow> 's \<Rightarrow> 's) \<Rightarrow> 'a list \<Rightarrow> 's \<Rightarrow> 's list" where
  "fold_states f [] s = [s]"
| "fold_states f (x # xs) s = s # fold_states f xs (f x s)"

function admit_states :: "int \<Rightarrow> 'v consumer \<Rightarrow> 'v consumer list" where
  "admit_states tuples_loaded s =
     s # (if tuples_loaded < w s \<and> input_queue s \<noteq> [] then
            (case input_queue s of
               [] \<Rightarrow> []
             | stream_tuple # rest \<Rightarrow>
                 (case stream_tuple (join_key_field s) of
                    None \<Rightarrow> []
                  | Some join_key \<Rightarrow>
                      admit_states (tuples_loaded + 1)
                        (admit_one stream_tuple join_key (s\<lparr>input_queue := rest\<rparr>))))
          else [])"
  by pat_completeness auto
termination
  by (relation "measure (\<lambda>(n, s). length (input_queue s))")
     (auto simp: admit_one_def Let_def split: prod.splits)

declare admit_states.simps [simp del]

definition flush_states :: "'v pyval \<Rightarrow> 'v consumer \<Rightarrow> 'v consumer list" where
  "flush_states oldest_key s =
     (case hash_table s oldest_key of
        None \<Rightarrow> [s]
      | Some matching_tuples \<Rightarrow> fold_states (remove_entry oldest_key) matching_tuples s)"

definition match_record_states ::
  "'v ext \<Rightarrow> 'v pydict \<Rightarrow> 'v pyval \<Rightarrow> 'v consumer \<Rightarrow> 'v consumer list" where
  "match_record_states X disk_record k s =
     (case hash_table s k of
        None \<Rightarrow> [s]
      | Some matching_tuples \<Rightarrow>
          fold_states (match_entry X disk_record k) matching_tuples s @
          [match_record X disk_record k s])"

fun match_loop_states :: "'v ext \<Rightarrow> 'v pydict list \<Rightarrow> 'v consumer \<Rightarrow> 'v consumer list" where
  "match_loop_states X [] s = [s]"
| "match_loop_states X (disk_record # rest) s =
     (case disk_record (join_key_field s) of
        None \<Rightarrow> [s]
      | Some join_key_value \<Rightarrow>
          match_record_states X disk_record join_key_value s @
          match_loop_states X rest (match_record X disk_record join_key_value s))"

definition probe_states :: "'v ext \<Rightarrow> 'v env \<Rightarrow> 'v consumer \<Rightarrow> 'v consumer list" where
  "probe_states X e s0 =
     (let s = s0\<lparr>input_queue := input_queue s0 @ arrive_mid e\<rparr>
      in if is_empty (queue s) then [s]
         else
           (let oldest_key = peek_front (queue s)
            in if oldest_key = PyNone then [s, s\<lparr>w := HS - len_dll (queue s)\<rparr>]
               else
                 (case partition_loader_func e oldest_key VP of
                    Inl x \<Rightarrow> flush_states oldest_key s
                  | Inr fetched \<Rightarrow>
                      (let s1 = s\<lparr>disk_buffer := fetched, disk_io_count := disk_io_count s + 1\<rparr>
                       in if fetched = [] then flush_states oldest_key s1
                          else match_loop_states X fetched s1))))"

definition pass_states :: "'v ext \<Rightarrow> 'v env \<Rightarrow> 'v consumer \<Rightarrow> 'v consumer list" where
  "pass_states X e s =
     (let s0 = s\<lparr>input_queue := input_queue s @ arrive_pre e\<rparr>
      in (if w s0 > 0 then admit_states 0 s0 else [s0]) @
         (case admit_phase e s of
            Inl x \<Rightarrow> []
          | Inr s1 \<Rightarrow> s1 # probe_states X e s1))"

text \<open>The last state a loop visits is the state it returns.\<close>

lemma fold_states_nonempty [simp]: "fold_states f xs s \<noteq> []"
  by (cases xs) simp_all

lemma last_fold_states: "last (fold_states f xs s) = fold f xs s"
  by (induction xs arbitrary: s) simp_all

lemma last_flush_states: "last (flush_states k s) = flush_bucket k s"
  by (simp add: flush_states_def flush_bucket_def last_fold_states split: option.splits)

lemma last_match_record_states: "last (match_record_states X r k s) = match_record X r k s"
  by (simp add: match_record_states_def match_record_def split: option.splits)

lemma match_record_states_nonempty [simp]: "match_record_states X r k s \<noteq> []"
  by (simp add: match_record_states_def split: option.splits)

lemma match_loop_states_nonempty [simp]: "match_loop_states X rows s \<noteq> []"
  by (cases rows) (simp_all split: option.splits)

lemma last_match_loop_states:
  "match_loop X rows s = Inr s' \<Longrightarrow> last (match_loop_states X rows s) = s'"
proof (induction rows arbitrary: s)
  case Nil
  then show ?case by simp
next
  case (Cons r rows)
  then obtain k where k: "r (join_key_field s) = Some k"
    by (cases "r (join_key_field s)") auto
  with Cons.prems have "match_loop X rows (match_record X r k s) = Inr s'" by simp
  from Cons.IH[OF this] k show ?case by simp
qed

lemma iteration_in_pass_states:
  assumes "iteration X e s = Inr (c, s')"
  shows "s' \<in> set (pass_states X e s)"
proof -
  from assms obtain s1 where a: "admit_phase e s = Inr s1"
    and p: "probe_phase X e s1 = Inr (c, s')"
    by (auto simp: iteration_def split: sum.splits)
  have "last (probe_states X e s1) = s'"
    using p
    by (auto simp: probe_phase_def probe_states_def Let_def last_flush_states
        last_match_loop_states split: if_splits sum.splits)
  moreover have "probe_states X e s1 \<noteq> []"
    by (auto simp: probe_states_def Let_def flush_states_def split: sum.splits option.splits)
  ultimately have "s' \<in> set (probe_states X e s1)" using last_in_set by blast
  then show ?thesis using a by (simp add: pass_states_def Let_def)
qed


text \<open>\<open>sized B s\<close>: hash table and queue of \<open>s\<close> agree and the queue holds at most \<open>B\<close> nodes.\<close>

definition sized :: "int \<Rightarrow> 'v consumer \<Rightarrow> bool" where
  "sized B s \<longleftrightarrow> (\<exists>xs. struct s xs) \<and> dll_size (queue s) \<le> B"

lemma sized_cong:
  "hash_table s' = hash_table s \<Longrightarrow> queue s' = queue s \<Longrightarrow> sized B s' = sized B s"
  using struct_cong[of s' s] by (simp add: sized_def)

lemma fold_states_sized:
  assumes h: "\<And>e s. hash_table (f e s) = hash_table (remove_entry k e s)"
      and q: "\<And>e s. queue (f e s) = queue (remove_entry k e s)"
      and "struct s xs" and "bucket (hash_table s) k = es @ rest"
      and "dll_size (queue s) \<le> B" and "s' \<in> set (fold_states f es s)"
  shows "sized B s'"
  using assms(3-6)
proof (induction es arbitrary: s xs)
  case Nil
  then show ?case by (auto simp: sized_def)
next
  case (Cons e es)
  show ?case
  proof (cases "s' = s")
    case True
    with Cons.prems show ?thesis by (auto simp: sized_def)
  next
    case False
    with Cons.prems(4) have m: "s' \<in> set (fold_states f es (f e s))" by simp
    from Cons.prems(2) have b: "bucket (hash_table s) k = e # (es @ rest)" by simp
    note r = struct_remove_entry[OF Cons.prems(1) b]
    have st: "struct (f e s) (remove1 (snd e) xs)"
      using r(1) struct_cong[of "f e s" "remove_entry k e s"] h q by simp
    have bt: "bucket (hash_table (f e s)) k = es @ rest" using r(2) h by simp
    have sz: "dll_size (queue (f e s)) \<le> B" using Cons.prems(3) by (simp add: q)
    from Cons.IH[OF st bt sz m] show ?thesis .
  qed
qed

lemma flush_states_sized:
  assumes "sized B s" and "s' \<in> set (flush_states k s)"
  shows "sized B s'"
proof (cases "hash_table s k")
  case None
  with assms show ?thesis by (simp add: flush_states_def)
next
  case (Some es)
  from assms(1) obtain xs where xs: "struct s xs" and sz: "dll_size (queue s) \<le> B"
    by (auto simp: sized_def)
  from Some have b: "bucket (hash_table s) k = es @ []" by (simp add: bucket_def)
  from assms(2) Some have "s' \<in> set (fold_states (remove_entry k) es s)"
    by (simp add: flush_states_def)
  from fold_states_sized[of "remove_entry k" k s xs es "[]" B s', OF _ _ xs b sz this]
  show ?thesis by simp
qed

lemma match_record_sized:
  assumes "sized B s"
  shows "sized B (match_record X r k s)"
proof -
  from assms obtain xs where xs: "struct s xs" and sz: "dll_size (queue s) \<le> B"
    by (auto simp: sized_def)
  from struct_match_record[OF xs, of X r k] match_record_counts[of X r k s] sz
  show ?thesis by (auto simp: sized_def)
qed

lemma match_record_states_sized:
  assumes "sized B s" and "s' \<in> set (match_record_states X r k s)"
  shows "sized B s'"
proof (cases "hash_table s k")
  case None
  with assms show ?thesis by (simp add: match_record_states_def)
next
  case (Some es)
  from assms(1) obtain xs where xs: "struct s xs" and sz: "dll_size (queue s) \<le> B"
    by (auto simp: sized_def)
  from Some have b: "bucket (hash_table s) k = es @ []" by (simp add: bucket_def)
  from assms(2) Some consider "s' \<in> set (fold_states (match_entry X r k) es s)"
    | "s' = match_record X r k s"
    by (auto simp: match_record_states_def)
  then show ?thesis
  proof cases
    case 1
    from fold_states_sized[of "match_entry X r k" k s xs es "[]" B s', OF _ _ xs b sz 1]
    show ?thesis by simp
  next
    case 2
    then show ?thesis using match_record_sized[OF assms(1)] by simp
  qed
qed

lemma match_loop_states_sized:
  assumes "sized B s" and "s' \<in> set (match_loop_states X rows s)"
  shows "sized B s'"
  using assms
proof (induction rows arbitrary: s)
  case Nil
  then show ?case by simp
next
  case (Cons r rows)
  show ?case
  proof (cases "r (join_key_field s)")
    case None
    with Cons.prems show ?thesis by simp
  next
    case (Some k)
    with Cons.prems(2) consider "s' \<in> set (match_record_states X r k s)"
      | "s' \<in> set (match_loop_states X rows (match_record X r k s))"
      by auto
    then show ?thesis
    proof cases
      case 1
      then show ?thesis using match_record_states_sized[OF Cons.prems(1)] by blast
    next
      case 2
      from Cons.IH[OF match_record_sized[OF Cons.prems(1)] 2] show ?thesis .
    qed
  qed
qed

lemma admit_states_sized:
  assumes "s' \<in> set (admit_states n s)" and "struct s xs" and "n \<le> w s"
    and "dll_size (queue s) + (w s - n) \<le> B"
  shows "sized B s'"
  using assms
proof (induction n s arbitrary: xs rule: admit_states.induct)
  case (1 n s)
  show ?case
  proof (cases "s' = s")
    case True
    with "1.prems" show ?thesis by (auto simp: sized_def)
  next
    case False
    define R where "R = (case input_queue s of
               [] \<Rightarrow> []
             | t # rest \<Rightarrow>
                 (case t (join_key_field s) of
                    None \<Rightarrow> []
                  | Some k \<Rightarrow> admit_states (n + 1) (admit_one t k (s\<lparr>input_queue := rest\<rparr>))))"
    have u: "admit_states n s = s # (if n < w s \<and> input_queue s \<noteq> [] then R else [])"
      unfolding R_def by (rule admit_states.simps)
    from "1.prems"(1) False have "s' \<in> set (if n < w s \<and> input_queue s \<noteq> [] then R else [])"
      unfolding u by simp
    then have c: "n < w s \<and> input_queue s \<noteq> []" and mem: "s' \<in> set R"
      by (auto split: if_splits)
    then obtain t rest where iq: "input_queue s = t # rest" by (cases "input_queue s") auto
    with mem obtain k where k: "t (join_key_field s) = Some k"
      by (cases "t (join_key_field s)") (auto simp: R_def)
    let ?s1 = "admit_one t k (s\<lparr>input_queue := rest\<rparr>)"
    from iq k mem have m: "s' \<in> set (admit_states (n + 1) ?s1)" by (simp add: R_def)
    have st1: "struct ?s1 (xs @ [allocated (queue s)])"
      using struct_admit_one[of "s\<lparr>input_queue := rest\<rparr>" xs t k] "1.prems"(2) by simp
    have "n + 1 \<le> w ?s1" using c by simp
    moreover have "dll_size (queue ?s1) + (w ?s1 - (n + 1)) \<le> B"
      using "1.prems"(4) by (simp add: dll_append_fields)
    ultimately show ?thesis using "1.IH"[OF c iq k m st1] by simp
  qed
qed


lemma stage_inv_sized: "stage_inv s \<Longrightarrow> sized HS s"
  by (auto simp: stage_inv_def sized_def)

lemma sized_input_queue [simp]: "sized B (s\<lparr>input_queue := i\<rparr>) = sized B s"
  by (simp add: sized_def)

lemma probe_states_sized:
  assumes "stage_inv s1" and "s' \<in> set (probe_states X e s1)"
  shows "sized HS s'"
proof -
  let ?s = "s1\<lparr>input_queue := input_queue s1 @ arrive_mid e\<rparr>"
  have z: "sized HS ?s" using stage_inv_sized[OF assms(1)] by simp
  have zw: "sized HS (?s\<lparr>w := x\<rparr>)" for x
    using z sized_cong[of "?s\<lparr>w := x\<rparr>" ?s HS] by simp
  have zd: "sized HS (?s\<lparr>disk_buffer := d, disk_io_count := c\<rparr>)" for d c
    using z sized_cong[of "?s\<lparr>disk_buffer := d, disk_io_count := c\<rparr>" ?s HS] by simp
  show ?thesis
  proof (cases "is_empty (queue ?s)")
    case True
    with assms(2) z show ?thesis by (simp add: probe_states_def Let_def)
  next
    case ne: False
    show ?thesis
    proof (cases "peek_front (queue ?s) = PyNone")
      case True
      with ne assms(2) have "s' = ?s \<or> s' = ?s\<lparr>w := HS - len_dll (queue ?s)\<rparr>"
        by (simp add: probe_states_def Let_def)
      then show ?thesis using z zw by auto
    next
      case False
      let ?k = "peek_front (queue ?s)"
      show ?thesis
      proof (cases "partition_loader_func e ?k VP")
        case (Inl x)
        with ne False assms(2) have "s' \<in> set (flush_states ?k ?s)"
          by (simp add: probe_states_def Let_def)
        then show ?thesis using flush_states_sized[OF z] by blast
      next
        case (Inr fetched)
        let ?s2 = "?s\<lparr>disk_buffer := fetched, disk_io_count := disk_io_count ?s + 1\<rparr>"
        have z2: "sized HS ?s2" by (rule zd)
        show ?thesis
        proof (cases "fetched = []")
          case True
          with Inr ne False assms(2) have "s' \<in> set (flush_states ?k ?s2)"
            by (simp add: probe_states_def Let_def)
          then show ?thesis using flush_states_sized[OF z2] by blast
        next
          case nonempty: False
          with Inr ne False assms(2) have "s' \<in> set (match_loop_states X fetched ?s2)"
            by (simp add: probe_states_def Let_def)
          then show ?thesis using match_loop_states_sized[OF z2] by blast
        qed
      qed
    qed
  qed
qed

lemma pass_states_sized:
  assumes "stage_inv s" and "s' \<in> set (pass_states X e s)"
  shows "sized HS s'"
proof -
  let ?s0 = "s\<lparr>input_queue := input_queue s @ arrive_pre e\<rparr>"
  from assms(1) obtain xs where xs: "struct s xs" and w: "0 \<le> w s"
    and b: "w s + dll_size (queue s) \<le> HS"
    by (auto simp: stage_inv_def)
  have "(w ?s0 > 0 \<and> s' \<in> set (admit_states 0 ?s0)) \<or> s' = ?s0 \<or>
      (\<exists>s1. admit_phase e s = Inr s1 \<and> (s' = s1 \<or> s' \<in> set (probe_states X e s1)))"
  proof (cases "admit_phase e s")
    case (Inl x)
    with assms(2) show ?thesis by (auto simp: pass_states_def Let_def split: if_splits)
  next
    case (Inr s1)
    with assms(2) show ?thesis by (auto simp: pass_states_def Let_def split: if_splits)
  qed
  then consider "w ?s0 > 0" "s' \<in> set (admit_states 0 ?s0)"
    | "s' = ?s0"
    | s1 where "admit_phase e s = Inr s1" "s' = s1 \<or> s' \<in> set (probe_states X e s1)"
    by blast
  then show ?thesis
  proof cases
    case 1
    have "struct ?s0 xs" using xs by simp
    moreover have "0 \<le> w ?s0" using w by simp
    moreover have "dll_size (queue ?s0) + (w ?s0 - 0) \<le> HS" using b by simp
    ultimately show ?thesis using admit_states_sized[OF 1(2)] by blast
  next
    case 2
    then show ?thesis using stage_inv_sized[OF assms(1)] by simp
  next
    case 3
    note i1 = admit_phase_inv[OF 3(1) assms(1)]
    from 3(2) show ?thesis using stage_inv_sized[OF i1] probe_states_sized[OF i1] by blast
  qed
qed

lemma sized_nodes:
  "sized B s \<Longrightarrow> len_dll (queue s) \<le> B \<and> int (length (nodes_of (queue s))) = len_dll (queue s)"
  by (auto simp: sized_def len_dll_def struct_size struct_nodes_of)

text \<open>
  Claim C1. In every state at the top of a pass, and in every state a pass goes
  through from there (after each admitted tuple and after each entry removed by a match
  or a flush), whatever the other threads and the database do, the length of the queue
  is at most \<open>HS\<close>, and it is the number of nodes linked from the head of the list.
\<close>

theorem window_never_exceeds_capacity:
  assumes "reach X s"
  shows "len_dll (queue s) \<le> HS \<and> int (length (nodes_of (queue s))) = len_dll (queue s) \<and>
         (\<forall>s' \<in> set (pass_states X e s).
            len_dll (queue s') \<le> HS \<and> int (length (nodes_of (queue s'))) = len_dll (queue s'))"
  using sized_nodes[OF stage_inv_sized[OF reach_inv[OF assms]]]
    sized_nodes[OF pass_states_sized[OF reach_inv[OF assms]]]
  by blast

theorem window_never_exceeds_capacity_witness:
  "reach ex_ext (init_consumer ''Customer_ID'' False None) \<and>
   ex_one \<in> set (pass_states ex_ext (ex_env [ex_tuple ''A'' ''1''] False (Inr [ex_row ''Z'' ''C'']))
      (init_consumer ''Customer_ID'' False None)) \<and>
   len_dll (queue ex_one) \<le> HS \<and> length (nodes_of (queue ex_one)) = 1"
proof -
  have r: "reach ex_ext (init_consumer ''Customer_ID'' False None)" by (rule reach_init)
  have m: "ex_one \<in> set (pass_states ex_ext (ex_env [ex_tuple ''A'' ''1''] False (Inr [ex_row ''Z'' ''C'']))
      (init_consumer ''Customer_ID'' False None))"
    using iteration_in_pass_states[OF ex_one_pass] .
  show ?thesis
    using r m window_never_exceeds_capacity[OF r,
        of "ex_env [ex_tuple ''A'' ''1''] False (Inr [ex_row ''Z'' ''C''])"]
    by (auto simp: ex_one_fields)
qed

section \<open>An example pass with two matches\<close>

text \<open>
  A first pass of the customer stage in which two tuples of customer A and one of
  customer B arrive and the partition fetched for A holds one record of A.
\<close>

definition ex_env_AAB :: "string env" where
  "ex_env_AAB = ex_env [ex_tuple ''A'' ''1'', ex_tuple ''A'' ''2'', ex_tuple ''B'' ''3'']
     False (Inr [ex_row ''A'' ''X''])"

definition ex_probed :: "string consumer" where
  "ex_probed = ex_window\<lparr>disk_buffer := [ex_row ''A'' ''X''], disk_io_count := 1\<rparr>"

lemma admit_one_input_queue:
  "admit_one t k (s\<lparr>input_queue := i\<rparr>) = (admit_one t k s)\<lparr>input_queue := i\<rparr>"
  by (simp add: admit_one_def Let_def split: prod.splits)

lemma ex_AAB_admit:
  "admit_phase ex_env_AAB (init_consumer ''Customer_ID'' False None) = Inr ex_window"
proof -
  let ?i = "init_consumer ''Customer_ID'' False None :: string consumer"
  let ?t1 = "ex_tuple ''A'' ''1''" and ?t2 = "ex_tuple ''A'' ''2''" and ?t3 = "ex_tuple ''B'' ''3''"
  let ?a1 = "admit_one ?t1 (PyVal ''A'') ?i"
  let ?a2 = "admit_one ?t2 (PyVal ''A'') ?a1"
  let ?a3 = "admit_one ?t3 (PyVal ''B'') ?a2"
  have wi: "w ?i = 10000" and jk: "join_key_field ?i = ''Customer_ID''"
    and iq: "input_queue ?i = []"
    by (simp_all add: init_consumer_def HS_def)
  have k: "?t1 ''Customer_ID'' = Some (PyVal ''A'')" "?t2 ''Customer_ID'' = Some (PyVal ''A'')"
    "?t3 ''Customer_ID'' = Some (PyVal ''B'')"
    by (simp_all add: ex_tuple_def)
  have e3: "?a3\<lparr>input_queue := []\<rparr> = ?a3" by (simp add: iq)
  have s3: "admit_loop 3 ?a3 = Inr (3, ?a3)"
    by (rule admit_loop_no_input) (simp add: iq)
  have s2: "admit_loop 2 (?a2\<lparr>input_queue := [?t3]\<rparr>) = Inr (3, ?a3)"
    by (subst admit_loop.simps) (simp add: wi jk k admit_one_input_queue e3 s3)
  have s1: "admit_loop 1 (?a1\<lparr>input_queue := [?t2, ?t3]\<rparr>) = Inr (3, ?a3)"
    by (subst admit_loop.simps) (simp add: wi jk k admit_one_input_queue s2)
  have s0: "admit_loop 0 (?i\<lparr>input_queue := [?t1, ?t2, ?t3]\<rparr>) = Inr (3, ?a3)"
    by (subst admit_loop.simps) (simp add: wi jk k admit_one_input_queue s1)
  show ?thesis
    using s0 by (simp add: admit_phase_def ex_env_AAB_def ex_env_def Let_def wi iq ex_window_def)
qed

lemma ex_AAB_pass:
  "iteration ex_ext ex_env_AAB (init_consumer ''Customer_ID'' False None) =
     Inr (Continue, match_record ex_ext (ex_row ''A'' ''X'') (PyVal ''A'') ex_probed)"
proof -
  have ne: "\<not> is_empty (queue ex_window)" by (simp add: is_empty_def ex_window_fields)
  have ib: "ex_window\<lparr>input_queue := input_queue ex_window @ []\<rparr> = ex_window"
    by (simp add: ex_window_fields)
  have jp: "join_key_field ex_probed = ''Customer_ID''"
    by (simp add: ex_probed_def ex_window_fields)
  have ml: "match_loop ex_ext [ex_row ''A'' ''X''] ex_probed =
      Inr (match_record ex_ext (ex_row ''A'' ''X'') (PyVal ''A'') ex_probed)"
    by (simp add: jp ex_row_def)
  have io: "disk_io_count ex_window = 0"
    by (simp add: ex_window_def init_consumer_def)
  have "probe_phase ex_ext ex_env_AAB ex_window =
      Inr (Continue, match_record ex_ext (ex_row ''A'' ''X'') (PyVal ''A'') ex_probed)"
    unfolding probe_phase_def Let_def ex_env_AAB_def ex_env_def
    apply (simp only: env.simps ib)
    apply (simp only: ne ex_window_front if_False pyval.distinct sum.case list.distinct io)
    apply (simp only: ex_probed_def[symmetric] add_0 ml sum.case)
    done
  then show ?thesis using ex_AAB_admit by (simp add: iteration_def)
qed

lemma ex_probed_fields:
  "\<not> is_final_stage ex_probed" "output_queue ex_probed = []" "total_joined ex_probed = 0"
  "w ex_probed = 0"
  "bucket (hash_table ex_probed) (PyVal ''A'') = [(ex_tuple ''A'' ''1'', 0), (ex_tuple ''A'' ''2'', 1)]"
  "bucket (hash_table ex_probed) (PyVal ''B'') = [(ex_tuple ''B'' ''3'', 2)]"
  by (simp_all add: ex_probed_def ex_window_fields ex_window_buckets)

lemma ex_AAB_result:
  "output_queue (match_record ex_ext (ex_row ''A'' ''X'') (PyVal ''A'') ex_probed) =
     [ex_tuple ''A'' ''1'' ++ ex_row ''A'' ''X'', ex_tuple ''A'' ''2'' ++ ex_row ''A'' ''X'']"
  "total_joined (match_record ex_ext (ex_row ''A'' ''X'') (PyVal ''A'') ex_probed) = 2"
  "w (match_record ex_ext (ex_row ''A'' ''X'') (PyVal ''A'') ex_probed) = 2"
proof -
  show "output_queue (match_record ex_ext (ex_row ''A'' ''X'') (PyVal ''A'') ex_probed) =
     [ex_tuple ''A'' ''1'' ++ ex_row ''A'' ''X'', ex_tuple ''A'' ''2'' ++ ex_row ''A'' ''X'']"
    using match_record_output[of ex_probed ex_ext "ex_row ''A'' ''X''" "PyVal ''A''"]
    by (simp add: ex_probed_fields)
  show "total_joined (match_record ex_ext (ex_row ''A'' ''X'') (PyVal ''A'') ex_probed) = 2"
    "w (match_record ex_ext (ex_row ''A'' ''X'') (PyVal ''A'') ex_probed) = 2"
    using match_record_counts[of ex_ext "ex_row ''A'' ''X''" "PyVal ''A''" ex_probed]
    by (simp_all add: ex_probed_fields)
qed

section \<open>The entries a run removes from the window\<close>

text \<open>
  The entries a pass takes out of the window, in the order in which it removes them.
  An entry leaves the window either at lines 234 to 236, matched with a disk record, or
  at lines 213 to 215 or 222 to 224, flushed. The functions below follow the loops of
  \<open>run\<close> and list, for each loop, the \<open>matching_tuples\<close> it goes through.
\<close>

datatype 'v removal = Matched "'v entry" "'v pydict" | Flushed "'v entry"

fun removed_entry :: "'v removal \<Rightarrow> 'v entry" where
  "removed_entry (Matched en r) = en"
| "removed_entry (Flushed en) = en"

definition removed_node :: "'v removal \<Rightarrow> addr" where
  "removed_node ev = snd (removed_entry ev)"

definition removed_tuple :: "'v removal \<Rightarrow> 'v pydict" where
  "removed_tuple ev = fst (removed_entry ev)"

text \<open>The enriched tuples the matched entries of a list of removals give, in that order.\<close>

fun forwarded :: "'v removal list \<Rightarrow> 'v pydict list" where
  "forwarded [] = []"
| "forwarded (Matched en r # evs) = (fst en ++ r) # forwarded evs"
| "forwarded (Flushed en # evs) = forwarded evs"

definition flush_removals :: "'v pyval \<Rightarrow> 'v consumer \<Rightarrow> 'v removal list" where
  "flush_removals oldest_key s =
     (case hash_table s oldest_key of
        None \<Rightarrow> []
      | Some matching_tuples \<Rightarrow> map Flushed matching_tuples)"

fun match_loop_removals :: "'v ext \<Rightarrow> 'v pydict list \<Rightarrow> 'v consumer \<Rightarrow> 'v removal list" where
  "match_loop_removals X [] s = []"
| "match_loop_removals X (disk_record # rest) s =
     (case disk_record (join_key_field s) of
        None \<Rightarrow> []
      | Some join_key_value \<Rightarrow>
          (case hash_table s join_key_value of
             None \<Rightarrow> []
           | Some matching_tuples \<Rightarrow> map (\<lambda>en. Matched en disk_record) matching_tuples) @
          match_loop_removals X rest (match_record X disk_record join_key_value s))"

definition probe_removals :: "'v ext \<Rightarrow> 'v env \<Rightarrow> 'v consumer \<Rightarrow> 'v removal list" where
  "probe_removals X e s0 =
     (let s = s0\<lparr>input_queue := input_queue s0 @ arrive_mid e\<rparr>
      in if is_empty (queue s) then []
         else
           (let oldest_key = peek_front (queue s)
            in if oldest_key = PyNone then []
               else
                 (case partition_loader_func e oldest_key VP of
                    Inl x \<Rightarrow> flush_removals oldest_key s
                  | Inr fetched \<Rightarrow>
                      (let s1 = s\<lparr>disk_buffer := fetched, disk_io_count := disk_io_count s + 1\<rparr>
                       in if fetched = [] then flush_removals oldest_key s1
                          else match_loop_removals X fetched s1))))"

definition pass_removals :: "'v ext \<Rightarrow> 'v env \<Rightarrow> 'v consumer \<Rightarrow> 'v removal list" where
  "pass_removals X e s =
     (case admit_phase e s of
        Inl x \<Rightarrow> []
      | Inr s1 \<Rightarrow> probe_removals X e s1)"

text \<open>The removals of a run of the loop, pass after pass, as far as the environments go.\<close>

fun run_removals :: "'v ext \<Rightarrow> 'v env list \<Rightarrow> 'v consumer \<Rightarrow> 'v removal list" where
  "run_removals X [] s = []"
| "run_removals X (e # es) s =
     pass_removals X e s @
     (case iteration X e s of
        Inr (Continue, s') \<Rightarrow> run_removals X es s'
      | _ \<Rightarrow> [])"

lemma forwarded_append [simp]: "forwarded (xs @ ys) = forwarded xs @ forwarded ys"
  by (induction xs rule: forwarded.induct) simp_all

lemma forwarded_Matched [simp]:
  "forwarded (map (\<lambda>en. Matched en r) es) = map (\<lambda>en. fst en ++ r) es"
  by (induction es) simp_all

lemma forwarded_Flushed [simp]: "forwarded (map Flushed es) = []"
  by (induction es) simp_all

lemma bucket_removals:
  "(case hash_table s k of None \<Rightarrow> [] | Some mt \<Rightarrow> map f mt) = map f (bucket (hash_table s) k)"
  by (simp add: bucket_def split: option.splits)

lemma match_loop_accounting:
  assumes "match_loop X rows s = Inr s'"
  shows "total_joined s' = total_joined s + int (length (forwarded (match_loop_removals X rows s))) \<and>
         (\<not> is_final_stage s \<longrightarrow>
            output_queue s' = output_queue s @ forwarded (match_loop_removals X rows s) \<and>
            total_output s' =
              total_output s + int (length (forwarded (match_loop_removals X rows s))))"
  using assms
proof (induction rows arbitrary: s)
  case Nil
  then show ?case by simp
next
  case (Cons r rows)
  then obtain k where k: "r (join_key_field s) = Some k"
    by (cases "r (join_key_field s)") auto
  with Cons.prems have "match_loop X rows (match_record X r k s) = Inr s'" by simp
  from Cons.IH[OF this] show ?case
    using match_record_counts[of X r k s] match_record_output[of s X r k] k
    by (simp add: bucket_removals)
qed

lemma pass_accounting:
  assumes "iteration X e s = Inr (c, s')"
  shows "total_joined s' = total_joined s + int (length (forwarded (pass_removals X e s))) \<and>
         (\<not> is_final_stage s \<longrightarrow>
            output_queue s' = output_queue s @ forwarded (pass_removals X e s) \<and>
            total_output s' = total_output s + int (length (forwarded (pass_removals X e s))))"
proof -
  from assms obtain s1 where a: "admit_phase e s = Inr s1"
    and p: "probe_phase X e s1 = Inr (c, s')"
    by (auto simp: iteration_def split: sum.splits)
  have fr: "total_joined s1 = total_joined s \<and> output_queue s1 = output_queue s \<and>
      total_output s1 = total_output s \<and> is_final_stage s1 = is_final_stage s"
    using a admit_loop_frame
    by (fastforce simp: admit_phase_def Let_def admit_frame_def split: if_splits sum.splits)
  have "total_joined s' = total_joined s1 + int (length (forwarded (probe_removals X e s1))) \<and>
         (\<not> is_final_stage s1 \<longrightarrow>
            output_queue s' = output_queue s1 @ forwarded (probe_removals X e s1) \<and>
            total_output s' = total_output s1 + int (length (forwarded (probe_removals X e s1))))"
    using p match_loop_accounting[of X _ _ s']
    by (auto simp: probe_phase_def probe_removals_def Let_def flush_bucket_frame
        flush_removals_def split: if_splits sum.splits option.splits)
  then show ?thesis using a fr by (simp add: pass_removals_def)
qed

subsection \<open>No entry is removed twice\<close>

lemma removed_node_simps [simp]:
  "removed_node (Matched en r) = snd en"
  "removed_node (Flushed en) = snd en"
  "removed_node \<circ> Flushed = snd"
  "removed_node \<circ> (\<lambda>en. Matched en r) = snd"
  by (simp_all add: removed_node_def fun_eq_iff)

lemma match_loop_removals_nodes:
  assumes "struct s xs"
  shows "distinct (map removed_node (match_loop_removals X rows s)) \<and>
         set (map removed_node (match_loop_removals X rows s)) \<subseteq> set xs \<and>
         (\<forall>a \<in> set (map removed_node (match_loop_removals X rows s)).
            Some (node_key (queue s) a) \<in> (\<lambda>r. r (join_key_field s)) ` set rows)"
  using assms
proof (induction rows arbitrary: s xs)
  case Nil
  then show ?case by simp
next
  case (Cons r rows)
  show ?case
  proof (cases "r (join_key_field s)")
    case None
    then show ?thesis by simp
  next
    case (Some k)
    let ?s2 = "match_record X r k s"
    let ?first = "map snd (bucket (hash_table s) k)"
    let ?rest = "map removed_node (match_loop_removals X rows ?s2)"
    have ev: "map removed_node (match_loop_removals X (r # rows) s) = ?first @ ?rest"
      using Some by (simp add: bucket_removals)
    have first: "?first = filter (\<lambda>a. node_key (queue s) a = k) xs"
      using Cons.prems by (simp add: struct_def)
    have dist: "distinct xs" using Cons.prems by (auto simp: struct_def dest: dll_rep_distinct)
    note c = match_record_counts[of X r k s]
    from Cons.IH[OF struct_match_record[OF Cons.prems, of X r k]] c
    have rest: "distinct ?rest" "set ?rest \<subseteq> set (filter (\<lambda>a. node_key (queue s) a \<noteq> k) xs)"
      "\<forall>a \<in> set ?rest. Some (node_key (queue s) a) \<in> (\<lambda>r. r (join_key_field s)) ` set rows"
      by simp_all
    have "distinct (?first @ ?rest)" using rest(1,2) first dist by auto
    moreover have "set (?first @ ?rest) \<subseteq> set xs" using rest(2) first by auto
    moreover have "\<forall>a \<in> set (?first @ ?rest).
        Some (node_key (queue s) a) \<in> (\<lambda>r. r (join_key_field s)) ` set (r # rows)"
      using rest(3) first Some by (auto simp: image_iff)
    ultimately show ?thesis unfolding ev by blast
  qed
qed

text \<open>
  What one pass does to the nodes: the nodes it removes are distinct and were in the
  queue after the admission; a pass that ends normally leaves a queue that holds none of
  them and no node that was not there after the admission.
\<close>

lemma probe_removals_nodes:
  assumes "struct s1 xs1"
  shows "distinct (map removed_node (probe_removals X e s1)) \<and>
         set (map removed_node (probe_removals X e s1)) \<subseteq> set xs1 \<and>
         (\<forall>c s'. probe_phase X e s1 = Inr (c, s') \<longrightarrow>
            (\<exists>xs'. struct s' xs' \<and> set xs' \<subseteq> set xs1 \<and>
               set (map removed_node (probe_removals X e s1)) \<inter> set xs' = {} \<and>
               allocated (queue s') = allocated (queue s1)))"
proof -
  let ?s = "s1\<lparr>input_queue := input_queue s1 @ arrive_mid e\<rparr>"
  have st: "struct ?s xs1" using assms by simp
  have dist: "distinct xs1" using assms by (auto simp: struct_def dest: dll_rep_distinct)
  have flush: "distinct (map removed_node (flush_removals k t)) \<and>
         set (map removed_node (flush_removals k t)) \<subseteq> set xs1 \<and>
         (\<exists>xs'. struct (flush_bucket k t) xs' \<and> set xs' \<subseteq> set xs1 \<and>
               set (map removed_node (flush_removals k t)) \<inter> set xs' = {} \<and>
               allocated (queue (flush_bucket k t)) = allocated (queue s1))"
    if t: "struct t xs1" "queue t = queue s1" for k t
  proof -
    have n: "map removed_node (flush_removals k t) = filter (\<lambda>a. node_key (queue t) a = k) xs1"
      using t(1) by (simp add: flush_removals_def bucket_removals struct_def)
    have "struct (flush_bucket k t) (filter (\<lambda>a. node_key (queue t) a \<noteq> k) xs1)"
      using struct_flush_bucket[OF t(1), of k] by simp
    moreover have "set (filter (\<lambda>a. node_key (queue t) a = k) xs1) \<inter>
        set (filter (\<lambda>a. node_key (queue t) a \<noteq> k) xs1) = {}" by auto
    ultimately show ?thesis
      using n dist flush_bucket_counts[of k t] t(2)
      by (intro conjI exI[of _ "filter (\<lambda>a. node_key (queue t) a \<noteq> k) xs1"]) auto
  qed
  have match: "distinct (map removed_node (match_loop_removals X rows t)) \<and>
         set (map removed_node (match_loop_removals X rows t)) \<subseteq> set xs1 \<and>
         (\<forall>s'. match_loop X rows t = Inr s' \<longrightarrow>
           (\<exists>xs'. struct s' xs' \<and> set xs' \<subseteq> set xs1 \<and>
               set (map removed_node (match_loop_removals X rows t)) \<inter> set xs' = {} \<and>
               allocated (queue s') = allocated (queue s1)))"
    if t: "struct t xs1" "queue t = queue s1" for rows t
  proof -
    note n = match_loop_removals_nodes[OF t(1), of X rows]
    have "\<exists>xs'. struct s' xs' \<and> set xs' \<subseteq> set xs1 \<and>
               set (map removed_node (match_loop_removals X rows t)) \<inter> set xs' = {} \<and>
               allocated (queue s') = allocated (queue s1)"
      if m: "match_loop X rows t = Inr s'" for s'
    proof -
      let ?xs' = "filter (\<lambda>a. Some (node_key (queue t) a) \<notin> (\<lambda>r. r (join_key_field t)) ` set rows) xs1"
      have "struct s' ?xs'" using struct_match_loop[OF m t(1)] .
      moreover have "set (map removed_node (match_loop_removals X rows t)) \<inter> set ?xs' = {}"
        using n by auto
      moreover have "allocated (queue s') = allocated (queue s1)"
        using match_loop_counts[OF m] t(2) by simp
      ultimately show ?thesis by (intro exI[of _ ?xs']) auto
    qed
    then show ?thesis using n by blast
  qed
  show ?thesis
  proof (cases "is_empty (queue ?s) \<or> peek_front (queue ?s) = PyNone")
    case True
    then have "probe_removals X e s1 = []" by (auto simp: probe_removals_def Let_def)
    moreover have "\<exists>xs'. struct s' xs' \<and> set xs' \<subseteq> set xs1 \<and>
        allocated (queue s') = allocated (queue s1)"
      if "probe_phase X e s1 = Inr (c, s')" for c s'
    proof -
      from that True have "s' = ?s \<or> s' = ?s\<lparr>w := HS - len_dll (queue ?s)\<rparr>"
        by (auto simp: probe_phase_def Let_def split: if_splits)
      then show ?thesis using st by (intro exI[of _ xs1]) auto
    qed
    ultimately show ?thesis by simp
  next
    case False
    let ?k = "peek_front (queue ?s)"
    show ?thesis
    proof (cases "partition_loader_func e ?k VP")
      case (Inl x)
      with False have "probe_removals X e s1 = flush_removals ?k ?s"
        "probe_phase X e s1 = Inr (Continue, flush_bucket ?k ?s)"
        by (simp_all add: probe_removals_def probe_phase_def Let_def)
      then show ?thesis using flush[of ?s ?k] st by simp
    next
      case (Inr fetched)
      let ?s2 = "?s\<lparr>disk_buffer := fetched, disk_io_count := disk_io_count ?s + 1\<rparr>"
      have st2: "struct ?s2 xs1" using st struct_cong[of ?s2 ?s xs1] by simp
      show ?thesis
      proof (cases "fetched = []")
        case True
        with Inr False have "probe_removals X e s1 = flush_removals ?k ?s2"
          "probe_phase X e s1 = Inr (Continue, flush_bucket ?k ?s2)"
          by (simp_all add: probe_removals_def probe_phase_def Let_def)
        then show ?thesis using flush[of ?s2 ?k] st2 by simp
      next
        case ne: False
        with Inr False have r: "probe_removals X e s1 = match_loop_removals X fetched ?s2"
          by (simp add: probe_removals_def Let_def)
        have "match_loop X fetched ?s2 = Inr s'" if "probe_phase X e s1 = Inr (c, s')" for c s'
          using that Inr False ne by (auto simp: probe_phase_def Let_def split: sum.splits)
        then show ?thesis using match[of ?s2 fetched] st2 unfolding r by simp
      qed
    qed
  qed
qed


lemma pass_removals_nodes:
  assumes "stage_inv s" and "struct s xs"
  shows "distinct (map removed_node (pass_removals X e s)) \<and>
         set (map removed_node (pass_removals X e s)) \<subseteq> set xs \<union> {a. allocated (queue s) \<le> a} \<and>
         (\<forall>c s'. iteration X e s = Inr (c, s') \<longrightarrow>
            (\<exists>xs'. struct s' xs' \<and> set xs' \<subseteq> set xs \<union> {a. allocated (queue s) \<le> a} \<and>
               set (map removed_node (pass_removals X e s)) \<inter> set xs' = {} \<and>
               allocated (queue s) \<le> allocated (queue s') \<and>
               (\<forall>a \<in> set (map removed_node (pass_removals X e s)). a < allocated (queue s'))))"
proof (cases "admit_phase e s")
  case (Inl x)
  then show ?thesis by (simp add: pass_removals_def iteration_def)
next
  case (Inr s1)
  from assms(1) have w: "0 \<le> w s" by (simp add: stage_inv_def)
  from admit_phase_char[OF Inr assms(2) w] obtain ts where ts: "admitted_phase e s xs s1 ts" ..
  let ?xs1 = "xs @ [allocated (queue s) ..< allocated (queue s) + length ts]"
  have st1: "struct s1 ?xs1" and al: "allocated (queue s1) = allocated (queue s) + length ts"
    using ts by (simp_all add: admitted_phase_def)
  have sub: "set ?xs1 \<subseteq> set xs \<union> {a. allocated (queue s) \<le> a}" by auto
  have lt: "\<forall>a \<in> set ?xs1. a < allocated (queue s1)"
    using st1 by (simp add: struct_def dll_rep_def)
  note p = probe_removals_nodes[OF st1, of X e]
  have r: "pass_removals X e s = probe_removals X e s1" using Inr by (simp add: pass_removals_def)
  have i: "iteration X e s = probe_phase X e s1" using Inr by (simp add: iteration_def)
  have "\<exists>xs'. struct s' xs' \<and> set xs' \<subseteq> set xs \<union> {a. allocated (queue s) \<le> a} \<and>
               set (map removed_node (probe_removals X e s1)) \<inter> set xs' = {} \<and>
               allocated (queue s) \<le> allocated (queue s') \<and>
               (\<forall>a \<in> set (map removed_node (probe_removals X e s1)). a < allocated (queue s'))"
    if "probe_phase X e s1 = Inr (c, s')" for c s'
  proof -
    from p that obtain xs' where xs': "struct s' xs'" "set xs' \<subseteq> set ?xs1"
      "set (map removed_node (probe_removals X e s1)) \<inter> set xs' = {}"
      "allocated (queue s') = allocated (queue s1)"
      by blast
    have "\<forall>a \<in> set (map removed_node (probe_removals X e s1)). a < allocated (queue s')"
      using p lt xs'(4) by auto
    then show ?thesis using xs' sub al by (intro exI[of _ xs']) auto
  qed
  moreover have "set (map removed_node (probe_removals X e s1)) \<subseteq> set xs \<union> {a. allocated (queue s) \<le> a}"
    using p sub by blast
  ultimately show ?thesis using p unfolding r i by blast
qed

lemma run_removals_nodes:
  assumes "stage_inv s" and "struct s xs"
  shows "distinct (map removed_node (run_removals X es s)) \<and>
         set (map removed_node (run_removals X es s)) \<subseteq> set xs \<union> {a. allocated (queue s) \<le> a}"
  using assms
proof (induction es arbitrary: s xs)
  case Nil
  then show ?case by simp
next
  case (Cons e es)
  note p = pass_removals_nodes[OF Cons.prems, of X e]
  show ?case
  proof (cases "\<exists>s'. iteration X e s = Inr (Continue, s')")
    case False
    then have "run_removals X (e # es) s = pass_removals X e s"
      by (auto split: sum.splits control.splits)
    with p show ?thesis by simp
  next
    case True
    then obtain s' where it: "iteration X e s = Inr (Continue, s')" ..
    from p it obtain xs' where xs': "struct s' xs'"
      "set xs' \<subseteq> set xs \<union> {a. allocated (queue s) \<le> a}"
      "set (map removed_node (pass_removals X e s)) \<inter> set xs' = {}"
      "allocated (queue s) \<le> allocated (queue s')"
      "\<forall>a \<in> set (map removed_node (pass_removals X e s)). a < allocated (queue s')"
      by blast
    note ih = Cons.IH[OF iteration_inv[OF it Cons.prems(1)] xs'(1)]
    let ?N = "map removed_node (pass_removals X e s)"
    let ?R = "map removed_node (run_removals X es s')"
    have ev: "map removed_node (run_removals X (e # es) s) = ?N @ ?R" using it by simp
    have "set ?N \<inter> set ?R = {}" using ih xs'(3,5) by fastforce
    then have "distinct (?N @ ?R)" using p ih by simp
    moreover have "set (?N @ ?R) \<subseteq> set xs \<union> {a. allocated (queue s) \<le> a}"
      using p ih xs'(2,4) by fastforce
    ultimately show ?thesis unfolding ev by blast
  qed
qed

text \<open>
  Claim C6. In a run of the loop from a reachable state, over any number of passes and
  whatever the environment does, no window entry (identified by its queue node) is
  removed twice, be it by a match or by a flush: the nodes of the removals of the run
  are distinct. Each pass counts in \<open>total_joined\<close>, and a stage that is not final
  forwards and counts in \<open>total_output\<close>, exactly the matched entries among its
  removals, once each and in that order; and no entry a pass removed is in the queue
  after it.
\<close>

theorem no_double_match:
  assumes "reach X s"
  shows "distinct (map removed_node (run_removals X es s)) \<and>
         (\<forall>c s'. iteration X e s = Inr (c, s') \<longrightarrow>
            total_joined s' = total_joined s + int (length (forwarded (pass_removals X e s))) \<and>
            (\<not> is_final_stage s \<longrightarrow>
               output_queue s' = output_queue s @ forwarded (pass_removals X e s) \<and>
               total_output s' = total_output s + int (length (forwarded (pass_removals X e s)))) \<and>
            set (map removed_node (pass_removals X e s)) \<inter> set (nodes_of (queue s')) = {})"
proof -
  note inv = reach_inv[OF assms]
  then obtain xs where xs: "struct s xs" by (auto simp: stage_inv_def)
  have "set (map removed_node (pass_removals X e s)) \<inter> set (nodes_of (queue s')) = {}"
    if "iteration X e s = Inr (c, s')" for c s'
    using pass_removals_nodes[OF inv xs, of X e] that struct_nodes_of by fastforce
  then show ?thesis
    using run_removals_nodes[OF inv xs, of X es] pass_accounting[of X e s] by blast
qed

theorem no_double_match_witness:
  "reach ex_ext (init_consumer ''Customer_ID'' False None) \<and>
   iteration ex_ext ex_env_AAB (init_consumer ''Customer_ID'' False None) =
     Inr (Continue, match_record ex_ext (ex_row ''A'' ''X'') (PyVal ''A'') ex_probed) \<and>
   distinct (map removed_node (run_removals ex_ext [ex_env_AAB]
     (init_consumer ''Customer_ID'' False None))) \<and>
   total_joined (match_record ex_ext (ex_row ''A'' ''X'') (PyVal ''A'') ex_probed) = 2 \<and>
   length (forwarded (pass_removals ex_ext ex_env_AAB (init_consumer ''Customer_ID'' False None))) = 2 \<and>
   output_queue (match_record ex_ext (ex_row ''A'' ''X'') (PyVal ''A'') ex_probed) =
     forwarded (pass_removals ex_ext ex_env_AAB (init_consumer ''Customer_ID'' False None))"
proof -
  have r: "reach ex_ext (init_consumer ''Customer_ID'' False None)" by (rule reach_init)
  have f: "\<not> is_final_stage (init_consumer ''Customer_ID'' False None :: string consumer)"
    "output_queue (init_consumer ''Customer_ID'' False None :: string consumer) = []"
    "total_joined (init_consumer ''Customer_ID'' False None :: string consumer) = 0"
    by (simp_all add: init_consumer_def)
  show ?thesis
    using r ex_AAB_pass f ex_AAB_result(2)
      no_double_match[OF r, of "[ex_env_AAB]" ex_env_AAB]
    by simp
qed

subsection \<open>Tuples with the same key leave in the order of their admission\<close>

text \<open>
  The stream tuples a pass admits: what the admission loop took from the front of the
  input queue. \<open>run_admitted\<close> lists them for the passes of a run.
\<close>

definition pass_admitted :: "'v env \<Rightarrow> 'v consumer \<Rightarrow> 'v pydict list" where
  "pass_admitted e s =
     (case admit_phase e s of
        Inl x \<Rightarrow> []
      | Inr s1 \<Rightarrow>
          take (length (input_queue s @ arrive_pre e) - length (input_queue s1))
            (input_queue s @ arrive_pre e))"

fun run_admitted :: "'v ext \<Rightarrow> 'v env list \<Rightarrow> 'v consumer \<Rightarrow> 'v pydict list" where
  "run_admitted X [] s = []"
| "run_admitted X (e # es) s =
     pass_admitted e s @
     (case iteration X e s of
        Inr (Continue, s') \<Rightarrow> run_admitted X es s'
      | _ \<Rightarrow> [])"

text \<open>The tuples of a list whose join key field holds \<open>k\<close>.\<close>

definition with_key :: "string \<Rightarrow> 'v pyval \<Rightarrow> 'v pydict list \<Rightarrow> 'v pydict list" where
  "with_key jk k ts = filter (\<lambda>t. t jk = Some k) ts"

text \<open>The stream tuples waiting in the bucket of \<open>k\<close>, oldest first.\<close>

definition pending :: "'v consumer \<Rightarrow> 'v pyval \<Rightarrow> 'v pydict list" where
  "pending s k = map fst (bucket (hash_table s) k)"

text \<open>Every entry sits in the bucket of the join key of its stream tuple.\<close>

definition keyed :: "'v consumer \<Rightarrow> bool" where
  "keyed s \<longleftrightarrow> (\<forall>k. \<forall>t \<in> set (pending s k). t (join_key_field s) = Some k)"

lemma with_key_append [simp]: "with_key jk k (xs @ ys) = with_key jk k xs @ with_key jk k ys"
  by (simp add: with_key_def)

lemma with_key_Nil [simp]: "with_key jk k [] = []"
  by (simp add: with_key_def)

lemma keyed_with_key:
  assumes "keyed s"
  shows "with_key (join_key_field s) k (pending s k0) = (if k = k0 then pending s k else [])"
proof (cases "k = k0")
  case True
  then show ?thesis using assms by (auto simp: keyed_def with_key_def)
next
  case False
  have "filter (\<lambda>t. t (join_key_field s) = Some k) (pending s k0) = []"
    using assms False by (fastforce simp: keyed_def filter_empty_conv)
  with False show ?thesis by (simp add: with_key_def)
qed

lemma removed_tuple_simps [simp]:
  "removed_tuple (Matched en r) = fst en"
  "removed_tuple (Flushed en) = fst en"
  "removed_tuple \<circ> Flushed = fst"
  "removed_tuple \<circ> (\<lambda>en. Matched en r) = fst"
  by (simp_all add: removed_tuple_def fun_eq_iff)

lemma pending_match_record:
  "pending (match_record X r k0 s) k = (if k = k0 then [] else pending s k)"
  by (simp add: pending_def match_record_hash_table bucket_def)

lemma keyed_match_record: "keyed s \<Longrightarrow> keyed (match_record X r k0 s)"
  using match_record_counts[of X r k0 s] by (simp add: keyed_def pending_match_record)

lemma match_loop_conservation:
  assumes "keyed s" and "match_loop X rows s = Inr s'"
  shows "with_key (join_key_field s) k (map removed_tuple (match_loop_removals X rows s)) @
           pending s' k = pending s k \<and> keyed s'"
  using assms
proof (induction rows arbitrary: s)
  case Nil
  then show ?case by simp
next
  case (Cons r rows)
  then obtain k0 where k0: "r (join_key_field s) = Some k0"
    by (cases "r (join_key_field s)") auto
  let ?s2 = "match_record X r k0 s"
  from k0 Cons.prems have m: "match_loop X rows ?s2 = Inr s'" by simp
  have jk: "join_key_field ?s2 = join_key_field s" using match_record_counts[of X r k0 s] by simp
  note ih = Cons.IH[OF keyed_match_record[OF Cons.prems(1)] m]
  have ev: "map removed_tuple (match_loop_removals X (r # rows) s) =
      pending s k0 @ map removed_tuple (match_loop_removals X rows ?s2)"
    using k0 by (simp add: bucket_removals pending_def)
  show ?case
    unfolding ev using ih keyed_with_key[OF Cons.prems(1), of k k0] jk
    by (auto simp: pending_match_record split: if_splits)
qed

lemma match_loop_prefix:
  assumes "keyed s"
  shows "with_key (join_key_field s) k (map removed_tuple (match_loop_removals X rows s)) = pending s k \<or>
         with_key (join_key_field s) k (map removed_tuple (match_loop_removals X rows s)) = []"
  using assms
proof (induction rows arbitrary: s)
  case Nil
  then show ?case by simp
next
  case (Cons r rows)
  show ?case
  proof (cases "r (join_key_field s)")
    case None
    then show ?thesis by simp
  next
    case (Some k0)
    let ?s2 = "match_record X r k0 s"
    have jk: "join_key_field ?s2 = join_key_field s" using match_record_counts[of X r k0 s] by simp
    note ih = Cons.IH[OF keyed_match_record[OF Cons.prems(1), of X r k0]]
    have ev: "map removed_tuple (match_loop_removals X (r # rows) s) =
        pending s k0 @ map removed_tuple (match_loop_removals X rows ?s2)"
      using Some by (simp add: bucket_removals pending_def)
    show ?thesis
      unfolding ev using ih keyed_with_key[OF Cons.prems(1), of k k0] jk
      by (auto simp: pending_match_record split: if_splits)
  qed
qed


lemma pending_updates [simp]:
  "pending (s\<lparr>input_queue := i\<rparr>) k = pending s k"
  "pending (s\<lparr>w := x\<rparr>) k = pending s k"
  "pending (s\<lparr>disk_buffer := d, disk_io_count := n\<rparr>) k = pending s k"
  by (simp_all add: pending_def)

lemma keyed_updates [simp]:
  "keyed (s\<lparr>input_queue := i\<rparr>) = keyed s"
  "keyed (s\<lparr>w := x\<rparr>) = keyed s"
  "keyed (s\<lparr>disk_buffer := d, disk_io_count := n\<rparr>) = keyed s"
  by (simp_all add: keyed_def)

lemma keyed_init: "keyed (init_consumer jk final lk)"
  by (simp add: keyed_def pending_def bucket_def init_consumer_def)

lemma admit_phase_pending:
  assumes "stage_inv s" and "keyed s" and "admit_phase e s = Inr s1"
  shows "pending s1 k = pending s k @ with_key (join_key_field s) k (pass_admitted e s) \<and>
         keyed s1 \<and> join_key_field s1 = join_key_field s"
proof -
  from assms(1) obtain xs where xs: "struct s xs" and w: "0 \<le> w s"
    by (auto simp: stage_inv_def)
  from admit_phase_char[OF assms(3) xs w] obtain ts where ts: "admitted_phase e s xs s1 ts" ..
  then have iq: "input_queue s @ arrive_pre e = ts @ input_queue s1"
    and bk: "\<And>k. pending s1 k = pending s k @ with_key (join_key_field s) k ts"
    and jk: "join_key_field s1 = join_key_field s"
    by (simp_all add: admitted_phase_def pending_def with_key_def admit_frame_def)
  have pa: "pass_admitted e s = ts" using assms(3) iq by (simp add: pass_admitted_def)
  have "keyed s1"
    unfolding keyed_def
  proof (intro allI ballI)
    fix k t assume "t \<in> set (pending s1 k)"
    then have "t \<in> set (pending s k) \<or> t \<in> set (with_key (join_key_field s) k ts)"
      using bk[of k] by auto
    then show "t (join_key_field s1) = Some k"
      using assms(2) jk by (auto simp: keyed_def with_key_def)
  qed
  then show ?thesis using bk pa jk by simp
qed

lemma flush_conservation:
  assumes "struct t xs" and "keyed t"
  shows "with_key (join_key_field t) k (map removed_tuple (flush_removals k0 t)) =
           (if k = k0 then pending t k else []) \<and>
         pending (flush_bucket k0 t) k = (if k = k0 then [] else pending t k) \<and>
         keyed (flush_bucket k0 t) \<and> join_key_field (flush_bucket k0 t) = join_key_field t"
proof -
  have ev: "map removed_tuple (flush_removals k0 t) = pending t k0"
    by (simp add: flush_removals_def bucket_removals pending_def)
  note st = struct_flush_bucket[OF assms(1), of k0]
  have p: "pending (flush_bucket k0 t) k = (if k = k0 then [] else pending t k)" for k
    using st by (simp add: pending_def bucket_def)
  have jk: "join_key_field (flush_bucket k0 t) = join_key_field t"
    using flush_bucket_frame[of k0 t] by simp
  have "keyed (flush_bucket k0 t)" using assms(2) by (simp add: keyed_def p jk)
  then show ?thesis using ev p jk keyed_with_key[OF assms(2), of k k0] by simp
qed

lemma probe_conservation:
  assumes "struct s1 xs" and "keyed s1"
  shows "(\<exists>rest. with_key (join_key_field s1) k (map removed_tuple (probe_removals X e s1)) @ rest
            = pending s1 k) \<and>
         (\<forall>c s'. probe_phase X e s1 = Inr (c, s') \<longrightarrow>
            with_key (join_key_field s1) k (map removed_tuple (probe_removals X e s1)) @
              pending s' k = pending s1 k \<and>
            keyed s' \<and> join_key_field s' = join_key_field s1)"
proof -
  let ?s = "s1\<lparr>input_queue := input_queue s1 @ arrive_mid e\<rparr>"
  have st: "struct ?s xs" and ky: "keyed ?s" using assms by simp_all
  show ?thesis
  proof (cases "is_empty (queue ?s) \<or> peek_front (queue ?s) = PyNone")
    case True
    then have r: "probe_removals X e s1 = []" by (auto simp: probe_removals_def Let_def)
    have "pending s' k = pending s1 k \<and> keyed s' \<and> join_key_field s' = join_key_field s1"
      if "probe_phase X e s1 = Inr (c, s')" for c s'
    proof -
      from that True have "s' = ?s \<or> s' = ?s\<lparr>w := HS - len_dll (queue ?s)\<rparr>"
        by (auto simp: probe_phase_def Let_def split: if_splits)
      then show ?thesis using assms(2) by auto
    qed
    then show ?thesis unfolding r by simp
  next
    case False
    let ?k = "peek_front (queue ?s)"
    show ?thesis
    proof (cases "partition_loader_func e ?k VP")
      case (Inl x)
      with False have r: "probe_removals X e s1 = flush_removals ?k ?s"
        and p: "probe_phase X e s1 = Inr (Continue, flush_bucket ?k ?s)"
        by (simp_all add: probe_removals_def probe_phase_def Let_def)
      show ?thesis unfolding r p using flush_conservation[OF st ky, of k ?k] by auto
    next
      case (Inr fetched)
      let ?s2 = "?s\<lparr>disk_buffer := fetched, disk_io_count := disk_io_count ?s + 1\<rparr>"
      have st2: "struct ?s2 xs" using st struct_cong[of ?s2 ?s xs] by simp
      have ky2: "keyed ?s2" using ky by (simp only: keyed_updates)
      have p2: "pending ?s2 k = pending s1 k" by simp
      have jk2: "join_key_field ?s2 = join_key_field s1" by simp
      show ?thesis
      proof (cases "fetched = []")
        case True
        with Inr False have r: "probe_removals X e s1 = flush_removals ?k ?s2"
          and p: "probe_phase X e s1 = Inr (Continue, flush_bucket ?k ?s2)"
          by (simp_all add: probe_removals_def probe_phase_def Let_def)
        show ?thesis unfolding r p using flush_conservation[OF st2 ky2, of k ?k] p2 jk2 by auto
      next
        case ne: False
        with Inr False have r: "probe_removals X e s1 = match_loop_removals X fetched ?s2"
          by (simp add: probe_removals_def Let_def)
        have m: "match_loop X fetched ?s2 = Inr s'" if "probe_phase X e s1 = Inr (c, s')" for c s'
          using that Inr False ne by (auto simp: probe_phase_def Let_def split: sum.splits)
        have a: "\<exists>rest. with_key (join_key_field s1) k
            (map removed_tuple (match_loop_removals X fetched ?s2)) @ rest = pending s1 k"
          using match_loop_prefix[OF ky2, of k X fetched] p2 jk2 by (metis append_Nil append_Nil2)
        have b: "with_key (join_key_field s1) k
              (map removed_tuple (match_loop_removals X fetched ?s2)) @ pending s' k = pending s1 k \<and>
            keyed s' \<and> join_key_field s' = join_key_field s1"
          if "probe_phase X e s1 = Inr (c, s')" for c s'
          using match_loop_conservation[OF ky2 m[OF that], of k] match_loop_counts[OF m[OF that]]
            p2 jk2 by simp
        show ?thesis unfolding r using a b by blast
      qed
    qed
  qed
qed


lemma pass_conservation:
  assumes "stage_inv s" and "keyed s"
  shows "(\<exists>rest. with_key (join_key_field s) k (map removed_tuple (pass_removals X e s)) @ rest
            = pending s k @ with_key (join_key_field s) k (pass_admitted e s)) \<and>
         (\<forall>c s'. iteration X e s = Inr (c, s') \<longrightarrow>
            with_key (join_key_field s) k (map removed_tuple (pass_removals X e s)) @ pending s' k
              = pending s k @ with_key (join_key_field s) k (pass_admitted e s) \<and>
            keyed s' \<and> join_key_field s' = join_key_field s)"
proof (cases "admit_phase e s")
  case (Inl x)
  then show ?thesis by (simp add: pass_removals_def pass_admitted_def iteration_def)
next
  case (Inr s1)
  note a = admit_phase_pending[OF assms Inr, of k]
  from admit_phase_inv[OF Inr assms(1)] obtain xs1 where xs1: "struct s1 xs1"
    by (auto simp: stage_inv_def)
  from a have ky1: "keyed s1" by simp
  note p = probe_conservation[OF xs1 ky1, of k X e]
  have r: "pass_removals X e s = probe_removals X e s1" using Inr by (simp add: pass_removals_def)
  have i: "iteration X e s = probe_phase X e s1" using Inr by (simp add: iteration_def)
  show ?thesis unfolding r i using p a by simp
qed

lemma reach_keyed: "reach X s \<Longrightarrow> keyed s"
proof (induction rule: reach.induct)
  case (reach_init jk final lk)
  show ?case by (rule keyed_init)
next
  case (reach_step s e c s')
  from pass_conservation[OF reach_inv[OF reach_step(1)] reach_step(3), of PyNone X e]
    reach_step(2)
  show ?case by blast
qed

lemma run_conservation:
  assumes "stage_inv s" and "keyed s"
  shows "\<exists>rest. with_key (join_key_field s) k (map removed_tuple (run_removals X es s)) @ rest
            = pending s k @ with_key (join_key_field s) k (run_admitted X es s)"
  using assms
proof (induction es arbitrary: s)
  case Nil
  then show ?case by simp
next
  case (Cons e es)
  note p = pass_conservation[OF Cons.prems, of k X e]
  show ?case
  proof (cases "\<exists>s'. iteration X e s = Inr (Continue, s')")
    case False
    then have "run_removals X (e # es) s = pass_removals X e s"
      "run_admitted X (e # es) s = pass_admitted e s"
      by (auto split: sum.splits control.splits)
    with p show ?thesis by simp
  next
    case True
    then obtain s' where it: "iteration X e s = Inr (Continue, s')" ..
    from p it have c: "with_key (join_key_field s) k (map removed_tuple (pass_removals X e s)) @
        pending s' k = pending s k @ with_key (join_key_field s) k (pass_admitted e s)"
      and ky: "keyed s'" and jk: "join_key_field s' = join_key_field s"
      by blast+
    from Cons.IH[OF iteration_inv[OF it Cons.prems(1)] ky] jk obtain rest where
      rest: "with_key (join_key_field s) k (map removed_tuple (run_removals X es s')) @ rest
            = pending s' k @ with_key (join_key_field s) k (run_admitted X es s')"
      by auto
    have "with_key (join_key_field s) k (map removed_tuple (run_removals X (e # es) s)) @ rest =
        with_key (join_key_field s) k (map removed_tuple (pass_removals X e s)) @
        (pending s' k @ with_key (join_key_field s) k (run_admitted X es s'))"
      using it rest by simp
    also have "\<dots> = pending s k @ with_key (join_key_field s) k (run_admitted X (e # es) s)"
      using it c by simp
    finally show ?thesis by blast
  qed
qed

text \<open>
  Claim C7. Take a run of the loop from a reachable state and a key \<open>k\<close>. The stream
  tuples with join key \<open>k\<close> that the run removes from the window, in the order of their
  removal, are an initial part of the tuples with key \<open>k\<close> in the order of their
  admission: those waiting in the bucket of \<open>k\<close> at the start, oldest first, followed by
  those the run admits, in the order in which it takes them from the input queue. So of
  two tuples with the same key the one admitted first is removed first. A stage that is
  not final puts the enriched tuples of the matched entries on its output queue in the
  order of their removal.
\<close>

theorem same_key_order:
  assumes "reach X s"
  shows "(\<exists>rest. with_key (join_key_field s) k (map removed_tuple (run_removals X es s)) @ rest
            = pending s k @ with_key (join_key_field s) k (run_admitted X es s)) \<and>
         (\<forall>c s'. iteration X e s = Inr (c, s') \<longrightarrow> \<not> is_final_stage s \<longrightarrow>
            output_queue s' = output_queue s @ forwarded (pass_removals X e s))"
  using run_conservation[OF reach_inv[OF assms] reach_keyed[OF assms], of k X es]
    pass_accounting[of X e s]
  by blast

theorem same_key_order_witness:
  "reach ex_ext (init_consumer ''Customer_ID'' False None) \<and>
   iteration ex_ext ex_env_AAB (init_consumer ''Customer_ID'' False None) =
     Inr (Continue, match_record ex_ext (ex_row ''A'' ''X'') (PyVal ''A'') ex_probed) \<and>
   \<not> is_final_stage (init_consumer ''Customer_ID'' False None :: string consumer) \<and>
   forwarded (pass_removals ex_ext ex_env_AAB (init_consumer ''Customer_ID'' False None)) =
     [ex_tuple ''A'' ''1'' ++ ex_row ''A'' ''X'', ex_tuple ''A'' ''2'' ++ ex_row ''A'' ''X''] \<and>
   (\<exists>rest. with_key ''Customer_ID'' (PyVal ''A'') (map removed_tuple (run_removals ex_ext
        [ex_env_AAB] (init_consumer ''Customer_ID'' False None))) @ rest
      = with_key ''Customer_ID'' (PyVal ''A'') (run_admitted ex_ext
        [ex_env_AAB] (init_consumer ''Customer_ID'' False None)))"
proof -
  have r: "reach ex_ext (init_consumer ''Customer_ID'' False None)" by (rule reach_init)
  have f: "\<not> is_final_stage (init_consumer ''Customer_ID'' False None :: string consumer)"
    "join_key_field (init_consumer ''Customer_ID'' False None :: string consumer) = ''Customer_ID''"
    "pending (init_consumer ''Customer_ID'' False None :: string consumer) (PyVal ''A'') = []"
    "output_queue (init_consumer ''Customer_ID'' False None :: string consumer) = []"
    by (simp_all add: init_consumer_def pending_def bucket_def)
  show ?thesis
    using r ex_AAB_pass f ex_AAB_result(1)
      same_key_order[OF r, of "PyVal ''A''" "[ex_env_AAB]" ex_env_AAB]
    by simp
qed

section \<open>An example run that ends\<close>

text \<open>
  The state \<open>ex_one\<close> holds one entry of customer A. With the upstream event set and
  nothing arriving, a pass whose fetch returns an empty partition flushes that entry and
  the loop goes on; the next pass finds the window empty and ends the loop.
\<close>

definition ex_flushed :: "string consumer" where
  "ex_flushed = flush_bucket (PyVal ''A'') (ex_one\<lparr>disk_buffer := [], disk_io_count := 2\<rparr>)"

lemma ex_one_more_fields:
  "input_queue ex_one = []" "dll_size (queue ex_one) = 1" "disk_io_count ex_one = 1"
  "peek_front (queue ex_one) = PyVal ''A''"
  "bucket (hash_table ex_one) (PyVal ''A'') = [(ex_tuple ''A'' ''1'', 0)]"
  by (simp_all add: ex_one_def init_consumer_def dll_init_def dll_append_def peek_front_def
      Let_def bucket_def admit_one_def)

lemma ex_flush_pass:
  "iteration ex_ext (ex_env [] True (Inr [])) ex_one = Inr (Continue, ex_flushed)"
proof -
  let ?e = "ex_env [] True (Inr []) :: string env"
  have eq: "ex_one\<lparr>input_queue := input_queue ex_one @ []\<rparr> = ex_one"
    by (simp add: ex_one_more_fields)
  have a: "admit_phase ?e ex_one = Inr ex_one"
    unfolding admit_phase_def Let_def ex_env_def
    by (simp only: env.simps eq) (simp add: ex_one_fields)
  have ne: "\<not> is_empty (queue ex_one)" by (simp add: is_empty_def ex_one_more_fields)
  have "probe_phase ex_ext ?e ex_one = Inr (Continue, ex_flushed)"
    unfolding probe_phase_def Let_def ex_env_def
    apply (simp only: env.simps eq)
    apply (simp only: ne ex_one_more_fields if_False pyval.distinct sum.case if_True)
    apply (simp add: ex_flushed_def)
    done
  with a show ?thesis by (simp add: iteration_def)
qed

lemma ex_flushed_fields:
  "is_empty (queue ex_flushed)" "input_queue ex_flushed = []"
  using flush_bucket_counts[of "PyVal ''A''" "ex_one\<lparr>disk_buffer := [], disk_io_count := 2\<rparr>"]
    flush_bucket_frame[of "PyVal ''A''" "ex_one\<lparr>disk_buffer := [], disk_io_count := 2\<rparr>"]
  by (simp_all add: ex_flushed_def is_empty_def ex_one_more_fields)

theorem stage_terminates_exactly_when_drained_witness:
  "reach ex_ext (init_consumer ''Customer_ID'' False None) \<and>
   is_empty (queue (init_consumer ''Customer_ID'' False None :: string consumer)) \<and>
   upstream_finished (ex_env [] True (Inr [])) \<and>
   run_loop ex_ext [ex_env [] True (Inr [])] (init_consumer ''Customer_ID'' False None)
     = Some (Inr (init_consumer ''Customer_ID'' False None)) \<and>
   iteration ex_ext (ex_env [] False (Inr [])) (init_consumer ''Customer_ID'' False None)
     \<noteq> Inr (Break, init_consumer ''Customer_ID'' False None) \<and>
   reach ex_ext ex_one \<and> \<not> is_empty (queue ex_one) \<and> input_queue ex_one = [] \<and>
   run_loop ex_ext [ex_env [] True (Inr [])] ex_one = None \<and>
   reach ex_ext ex_flushed \<and> is_empty (queue ex_flushed) \<and>
   run_loop ex_ext [ex_env [] True (Inr []), ex_env [] True (Inr [])] ex_one
     = Some (Inr ex_flushed)"
proof -
  let ?i = "init_consumer ''Customer_ID'' False None :: string consumer"
  let ?e = "ex_env [] True (Inr []) :: string env"
  have r: "reach ex_ext ?i" by (rule reach_init)
  have a: "is_empty (queue ?i)" by (simp add: init_consumer_def is_empty_def dll_init_def)
  have b: "input_queue ?i = []" by (simp add: init_consumer_def)
  have r1: "reach ex_ext ex_one" using reach_step[OF reach_init ex_one_pass] .
  have r2: "reach ex_ext ex_flushed" using reach_step[OF r1 ex_flush_pass] .
  have ne: "\<not> is_empty (queue ex_one)" by (simp add: is_empty_def ex_one_more_fields)
  have ev: "upstream_finished ?e" "arrive_pre ?e = []" "arrive_mid ?e = []"
    by (simp_all add: ex_env_def)
  have i1: "run_loop ex_ext [?e] ?i = Some (Inr ?i) \<and>
      iteration ex_ext (ex_env [] False (Inr [])) ?i \<noteq> Inr (Break, ?i)"
    using a b
      stage_terminates_exactly_when_drained[OF r, of ?e "[]"]
      stage_terminates_exactly_when_drained[OF r, of "ex_env [] False (Inr [])" "[]"]
    by (auto simp: ex_env_def)
  have f: "run_loop ex_ext [?e] ex_flushed = Some (Inr ex_flushed)"
    using stage_terminates_exactly_when_drained[OF r2, of ?e "[]"] ex_flushed_fields ev by simp
  have o1: "run_loop ex_ext [?e] ex_one = None"
    using stage_terminates_exactly_when_drained[OF r1, of ?e "[]"] ne ex_flush_pass by simp
  have o2: "run_loop ex_ext [?e, ?e] ex_one = Some (Inr ex_flushed)"
    using stage_terminates_exactly_when_drained[OF r1, of ?e "[?e]"] ne ex_flush_pass f by simp
  show ?thesis
    using r a ev(1) i1 r1 ne ex_one_more_fields(1) o1 r2 ex_flushed_fields(1) o2 by simp
qed

end
